theory Spec2Isabelle
  imports Main "HOL-Library.Sublist"
begin

section \<open>Strings\<close>

text \<open>
  A JavaScript string is modelled as a \<^typ>\<open>string\<close>: a list of characters whose codes
  0..255 are read as the code units U+0000..U+00FF. The three string operations the two
  services use are \<open>trim\<close>, \<open>toLowerCase\<close> and \<open>replace(/\s+/g, '.')\<close>.
\<close>

definition isWhiteSpace :: "char \<Rightarrow> bool" where
  \<comment> \<open>the code units below 256 that \<open>\s\<close> matches and \<open>trim\<close> strips:
      TAB, LF, VT, FF, CR, SPACE and NBSP\<close>
  "isWhiteSpace c = (of_char c \<in> {9, 10, 11, 12, 13, 32, 160 :: nat})"

definition trim :: "string \<Rightarrow> string" where
  "trim s = rev (dropWhile isWhiteSpace (rev (dropWhile isWhiteSpace s)))"

definition toLowerCase_char :: "char \<Rightarrow> char" where
  \<comment> \<open>A..Z, and the Latin-1 capitals U+00C0..U+00DE without the multiplication sign\<close>
  "toLowerCase_char c =
     (let n = of_char c :: nat
      in if (65 \<le> n \<and> n \<le> 90) \<or> (192 \<le> n \<and> n \<le> 222 \<and> n \<noteq> 215)
         then char_of (n + 32) else c)"

definition toLowerCase :: "string \<Rightarrow> string" where
  "toLowerCase s = map toLowerCase_char s"

text \<open>\<open>s.replace(/\s+/g, '.')\<close>: every maximal run of white space becomes one dot.\<close>

function replace_ws :: "string \<Rightarrow> string" where
  "replace_ws [] = []"
| "replace_ws (c # cs) =
     (if isWhiteSpace c then CHR ''.'' # replace_ws (dropWhile isWhiteSpace cs)
      else c # replace_ws cs)"
  by pat_completeness auto
termination
  by (relation "measure length") (auto simp: length_dropWhile_le less_Suc_eq_le)

section \<open>Data model\<close>

datatype sex = M | F

text \<open>What the importer hands to \<open>bulkCreate\<close>, and a row of table \<open>BabyNames\<close>.\<close>

record new_baby_name =
  name :: string
  sex :: sex

record baby_name = new_baby_name +
  row_id :: nat  \<comment> \<open>column \<open>id\<close>, the auto-increment primary key\<close>

datatype error =
    AppError string nat string  \<comment> \<open>code, statusCode, message\<close>
  | HttpError "nat option"      \<comment> \<open>a rejected axios call, with \<open>error.response?.status\<close>\<close>
  | DbError string

section \<open>Ingestion: CsvImporterService\<close>

text \<open>
  A parsed CSV row maps column names to text. The row source is the sequence of rows
  the stream hands to the \<open>data\<close> handler before \<open>end\<close>; \<open>error\<close> events of the stream
  are left out.
\<close>

type_synonym row = "string \<rightharpoonup> string"

datatype log_entry =
    SkippingInvalidRow nat
  | Imported nat nat
  | BatchInsertError nat error
  | FinalBatchError error
  | ImportComplete nat nat

text \<open>
  \<open>BabyName.bulkCreate(batch, {ignoreDuplicates: true})\<close> belongs to the store: it is a
  parameter, a function from the store's state and the batch to the rows created (or
  the error it rejects with) and the next state.
\<close>

type_synonym 'db bulkCreate =
  "'db \<Rightarrow> new_baby_name list \<Rightarrow> (error + new_baby_name list) \<times> 'db"

text \<open>
  The variables of \<open>import\<close>, the store and the log, and two fields for the asynchronous
  write: \<open>pending\<close> is the batch of the \<open>bulkCreate\<close> that the \<open>data\<close> handler has started
  and that has not settled yet (the stream is paused meanwhile); \<open>answered\<close> lists, oldest
  first, the batches whose \<open>bulkCreate\<close> has settled, each with the store's answer.
\<close>

record 'db import_state =
  batch :: "new_baby_name list"
  totalInserted :: nat
  rowCount :: nat
  db :: 'db
  log :: "log_entry list"
  pending :: "new_baby_name list option"
  answered :: "(new_baby_name list \<times> (error + new_baby_name list)) list"

definition truthy :: "string option \<Rightarrow> bool" where
  \<comment> \<open>\<open>undefined\<close> and the empty string are the falsy values a column can have\<close>
  "truthy v = (case v of None \<Rightarrow> False | Some s \<Rightarrow> s \<noteq> [])"

text \<open>
  The \<open>data\<close> handler. When the batch is full it pauses the stream, empties \<open>batch\<close>,
  starts \<open>bulkCreate\<close> on the full batch and returns without waiting for it.
\<close>

definition on_data :: "nat \<Rightarrow> row \<Rightarrow> 'db import_state \<Rightarrow> 'db import_state" where
  "on_data batchSize r s0 =
     (let s = s0\<lparr>rowCount := rowCount s0 + 1\<rparr> in
      if \<not> truthy (r ''Name'') \<or> \<not> truthy (r ''Sex'')
      then s\<lparr>log := log s @ [SkippingInvalidRow (rowCount s)]\<rparr>
      else
        let s1 = s\<lparr>batch := batch s @
                   [\<lparr>name = trim (the (r ''Name'')),
                     sex = (if trim (the (r ''Sex'')) = ''M'' then M else F)\<rparr>]\<rparr>
        in if length (batch s1) \<ge> batchSize
           then s1\<lparr>batch := [], pending := Some (batch s1)\<rparr>
           else s1)"

text \<open>
  The \<open>then\<close> and \<open>catch\<close> callbacks of that \<open>bulkCreate\<close>: they run when the write
  settles, and resume the stream.
\<close>

definition on_settled :: "'db bulkCreate \<Rightarrow> 'db import_state \<Rightarrow> 'db import_state" where
  "on_settled bulkCreate s =
     (case pending s of
        None \<Rightarrow> s
      | Some batchToInsert \<Rightarrow>
          (case bulkCreate (db s) batchToInsert of
             (Inr created, db') \<Rightarrow>
               s\<lparr>totalInserted := totalInserted s + length created,
                 db := db', pending := None,
                 answered := answered s @ [(batchToInsert, Inr created)],
                 log := log s @
                   [Imported (totalInserted s + length created) (rowCount s)]\<rparr>
           | (Inl err, db') \<Rightarrow>
               s\<lparr>db := db', pending := None,
                 answered := answered s @ [(batchToInsert, Inl err)],
                 log := log s @ [BatchInsertError (rowCount s) err]\<rparr>))"

text \<open>
  The \<open>end\<close> handler: it writes the remaining records and waits for that write, then
  resolves with the count, or rejects with the write's error. It does not wait for a
  write that the \<open>data\<close> handler has started.
\<close>

definition on_end ::
  "'db bulkCreate \<Rightarrow> 'db import_state \<Rightarrow> (error + nat) \<times> 'db import_state" where
  "on_end bulkCreate s =
     (if length (batch s) > 0 then
        (case bulkCreate (db s) (batch s) of
           (Inr remaining, db') \<Rightarrow>
             (let n = totalInserted s + length remaining
              in (Inr n, s\<lparr>totalInserted := n, db := db',
                           answered := answered s @ [(batch s, Inr remaining)],
                           log := log s @ [ImportComplete n (rowCount s)]\<rparr>))
         | (Inl err, db') \<Rightarrow>
             (Inl err, s\<lparr>db := db',
                          answered := answered s @ [(batch s, Inl err)],
                          log := log s @ [FinalBatchError err]\<rparr>))
      else (Inr (totalInserted s),
            s\<lparr>log := log s @ [ImportComplete (totalInserted s) (rowCount s)]\<rparr>))"

text \<open>
  The run of the stream. A paused stream delivers no row, so every row but the first
  comes after the write before it has settled. The pause does not hold back \<open>end\<close>:
  when the last row has started a write, \<open>end\<close> fires either while that write is still
  in flight (\<open>endFirst\<close>) or after it has settled, depending on whether the stream had
  seen the end of its input when it delivered the last row. The run is over when the
  \<open>end\<close> handler resolves or rejects; the state returned is the one at that moment.
\<close>

fun import_stream ::
  "nat \<Rightarrow> 'db bulkCreate \<Rightarrow> bool \<Rightarrow> row list \<Rightarrow> 'db import_state
     \<Rightarrow> (error + nat) \<times> 'db import_state" where
  "import_stream batchSize bulkCreate endFirst [] s =
     (if endFirst then on_end bulkCreate s
      else on_end bulkCreate (on_settled bulkCreate s))"
| "import_stream batchSize bulkCreate endFirst (r # rows) s =
     import_stream batchSize bulkCreate endFirst rows
       (on_data batchSize r (on_settled bulkCreate s))"

definition initial :: "'db \<Rightarrow> 'db import_state" where
  "initial db0 =
     \<lparr>batch = [], totalInserted = 0, rowCount = 0, db = db0, log = [],
      pending = None, answered = []\<rparr>"

definition import_rows ::
  "nat \<Rightarrow> 'db bulkCreate \<Rightarrow> bool \<Rightarrow> 'db \<Rightarrow> row list \<Rightarrow> (error + nat) \<times> 'db import_state" where
  "import_rows batchSize bulkCreate endFirst db0 rows =
     import_stream batchSize bulkCreate endFirst rows (initial db0)"

section \<open>Egress: HubSpotSyncService\<close>

subsection \<open>The contact sent for a row\<close>

record contact_properties =
  email :: string
  firstname :: string
  lastname :: string
  hs_lead_status :: string
  lifecyclestage :: string

record contact =
  properties :: contact_properties

fun sex_text :: "sex \<Rightarrow> string" where
  "sex_text M = ''M''"
| "sex_text F = ''F''"

definition formatContactForHubSpot :: "baby_name \<Rightarrow> contact" where
  "formatContactForHubSpot babyName =
     (let email = replace_ws (toLowerCase (name babyName)) @ ''.''
                    @ toLowerCase (sex_text (sex babyName)) @ ''@babynamesdemo.com''
      in \<lparr>properties =
            \<lparr>email = email,
             firstname = name babyName,
             lastname = (if sex_text (sex babyName) = ''M'' then ''Male'' else ''Female''),
             hs_lead_status = ''NEW'',
             lifecyclestage = ''subscriber''\<rparr>\<rparr>)"

subsection \<open>The store and the remote endpoint\<close>

text \<open>
  \<open>BabyName.findAll\<close> is given an options object. The call in \<open>sync\<close> sets \<open>limit\<close>,
  \<open>offset\<close>, \<open>raw\<close> and \<open>logging\<close>; it sets no \<open>order\<close>, which is \<open>None\<close> here. The store
  itself is a parameter: a function from the options to the rows it returns.
\<close>

datatype order_by = IdAscending

record find_options =
  limit :: nat
  offset :: nat
  order :: "order_by option"
  raw :: bool
  logging :: bool

type_synonym store = "find_options \<Rightarrow> baby_name list"

text \<open>One entry of the \<open>inputs\<close> array posted to \<open>/crm/v3/objects/contacts/batch/upsert\<close>.\<close>

record upsert_input =
  idProperty :: string
  input_id :: string                    \<comment> \<open>key \<open>id\<close>\<close>
  input_properties :: contact_properties  \<comment> \<open>key \<open>properties\<close>\<close>

text \<open>
  The outcome of one \<open>post\<close>: resolved with a status, or rejected with
  \<open>error.response?.status\<close> (\<open>None\<close> when the error carries no response). The remote
  endpoint is a parameter: it answers the \<open>n\<close>-th call of a run, given its payload.
\<close>

datatype reply = Resolved nat | Rejected "nat option"

type_synonym remote = "nat \<Rightarrow> upsert_input list \<Rightarrow> reply"

datatype event =
    FindAll find_options
  | Post "upsert_input list" reply
  | Wait nat  \<comment> \<open>\<open>setTimeout\<close>, in milliseconds\<close>

record world =
  calls :: nat          \<comment> \<open>the number of posts made so far\<close>
  trace :: "event list"  \<comment> \<open>what the run did, oldest first\<close>

subsection \<open>sendBatchToHubSpot\<close>

text \<open>
  The retry on status 429 is an unbounded recursion: the function is partial, and
  \<open>None\<close> stands for a send that never returns.
\<close>

definition upsert_inputs :: "contact list \<Rightarrow> upsert_input list" where
  \<comment> \<open>the request body's \<open>inputs\<close>\<close>
  "upsert_inputs batch' =
     map (\<lambda>contact. \<lparr>idProperty = ''email'',
                         input_id = email (properties contact),
                         input_properties = properties contact\<rparr>) batch'"

partial_function (option) sendBatchToHubSpot ::
  "remote \<Rightarrow> contact list \<Rightarrow> world \<Rightarrow> ((error + unit) \<times> world) option" where
  "sendBatchToHubSpot remote batch' w =
     (let inputs = upsert_inputs batch';
          response = remote (calls w) inputs;
          w1 = w\<lparr>calls := calls w + 1, trace := trace w @ [Post inputs response]\<rparr>
      in case response of
           Resolved status \<Rightarrow> Some (Inr (), w1)
         | Rejected status \<Rightarrow>
             if status = Some 401 then
               Some (Inl (AppError ''HUBSPOT_AUTH_ERROR'' 401 ''Invalid HubSpot API key''), w1)
             else if status = Some 429 then
               sendBatchToHubSpot remote batch' (w1\<lparr>trace := trace w1 @ [Wait 1000]\<rparr>)
             else if status = Some 400 then Some (Inl (HttpError status), w1)
             else Some (Inl (HttpError status), w1))"

subsection \<open>sync\<close>

text \<open>
  ``Send the remaining batch if any, then \<open>break\<close>'': the two places where the loop of
  \<open>sync\<close> flushes \<open>currentBatch\<close> and stops.
\<close>

definition send_remaining ::
  "remote \<Rightarrow> nat \<Rightarrow> contact list \<Rightarrow> world \<Rightarrow> ((error + nat) \<times> world) option" where
  "send_remaining remote totalSynced currentBatch w =
     (if length currentBatch > 0 then
        (case sendBatchToHubSpot remote currentBatch w of
           None \<Rightarrow> None
         | Some (Inl err, w') \<Rightarrow> Some (Inl err, w')
         | Some (Inr u, w') \<Rightarrow> Some (Inr (totalSynced + length currentBatch), w'))
      else Some (Inr totalSynced, w))"

text \<open>The \<open>for\<close> loop over a page; it yields \<open>totalSynced\<close> and \<open>currentBatch\<close>.\<close>

fun for_records ::
  "remote \<Rightarrow> nat \<Rightarrow> nat \<Rightarrow> baby_name list \<Rightarrow> nat \<Rightarrow> contact list \<Rightarrow> world
     \<Rightarrow> ((error + nat \<times> contact list) \<times> world) option" where
  "for_records remote maxContactsToSync batchSize [] totalSynced currentBatch w =
     Some (Inr (totalSynced, currentBatch), w)"
| "for_records remote maxContactsToSync batchSize (rcd # records) totalSynced currentBatch w =
     (if totalSynced \<ge> maxContactsToSync then Some (Inr (totalSynced, currentBatch), w)
      else
        let currentBatch1 = currentBatch @ [formatContactForHubSpot rcd]
        in if length currentBatch1 \<ge> batchSize then
             (case sendBatchToHubSpot remote currentBatch1 w of
                None \<Rightarrow> None
              | Some (Inl err, w') \<Rightarrow> Some (Inl err, w')
              | Some (Inr u, w') \<Rightarrow>
                  for_records remote maxContactsToSync batchSize records
                    (totalSynced + length currentBatch1) [] w')
           else for_records remote maxContactsToSync batchSize records
                  totalSynced currentBatch1 w)"

text \<open>
  Within one page \<open>totalSynced\<close> never decreases; while it stays the same, the batch only
  grows and stays below the batch size. This is what makes the \<open>while\<close> loop terminate.
\<close>

lemma for_records_progress:
  "for_records remote cap bsz records ts cb w = Some (Inr (ts', cb'), w') \<Longrightarrow>
     ts \<le> ts' \<and> (ts' = ts \<longrightarrow> cb' = cb \<or> (length cb < length cb' \<and> length cb' < bsz))"
proof (induction records arbitrary: ts cb w)
  case Nil
  then show ?case by simp
next
  case (Cons r records)
  show ?case
  proof (cases "ts \<ge> cap")
    case True
    with Cons.prems show ?thesis by simp
  next
    case notcap: False
    let ?cb1 = "cb @ [formatContactForHubSpot r]"
    show ?thesis
    proof (cases "length ?cb1 \<ge> bsz")
      case True
      with notcap Cons.prems obtain w1 where
        "sendBatchToHubSpot remote ?cb1 w = Some (Inr (), w1)"
        "for_records remote cap bsz records (ts + length ?cb1) [] w1 = Some (Inr (ts', cb'), w')"
        by (auto simp: Let_def split: option.splits sum.splits)
      from Cons.IH[OF this(2)] show ?thesis by simp
    next
      case False
      with notcap Cons.prems have
        "for_records remote cap bsz records ts ?cb1 w = Some (Inr (ts', cb'), w')"
        by (simp add: Let_def)
      from Cons.IH[OF this] False show ?thesis by auto
    qed
  qed
qed

lemma for_records_strict_progress:
  assumes "for_records remote cap bsz records ts cb w = Some (Inr (ts', cb'), w')"
    and "records \<noteq> []" and "ts < cap"
  shows "ts < ts' \<or> (ts' = ts \<and> length cb < length cb' \<and> length cb' < bsz)"
proof -
  from assms(2) obtain r rs where records: "records = r # rs" by (cases records) auto
  let ?cb1 = "cb @ [formatContactForHubSpot r]"
  show ?thesis
  proof (cases "length ?cb1 \<ge> bsz")
    case True
    with assms(1,3) records obtain w1 where
      "for_records remote cap bsz rs (ts + length ?cb1) [] w1 = Some (Inr (ts', cb'), w')"
      by (auto simp: Let_def split: option.splits sum.splits)
    from for_records_progress[OF this] show ?thesis by simp
  next
    case False
    with assms(1,3) records have
      "for_records remote cap bsz rs ts ?cb1 w = Some (Inr (ts', cb'), w')"
      by (simp add: Let_def)
    from for_records_progress[OF this] False show ?thesis by auto
  qed
qed

text \<open>The \<open>while\<close> loop of \<open>sync\<close>. The page size and the batch size are parameters here;
  \<open>sync\<close> fixes them to 5000 and 100.\<close>

function sync_loop ::
  "store \<Rightarrow> remote \<Rightarrow> nat \<Rightarrow> nat \<Rightarrow> nat \<Rightarrow> nat \<Rightarrow> contact list \<Rightarrow> nat \<Rightarrow> world
     \<Rightarrow> ((error + nat) \<times> world) option" where
  "sync_loop findAll remote maxContactsToSync pageSize batchSize totalSynced currentBatch offs w =
     (if totalSynced < maxContactsToSync then
        let remainingToSync = maxContactsToSync - totalSynced;
            fetchLimit = min pageSize remainingToSync;
            opts = \<lparr>limit = fetchLimit, offset = offs, order = None,
                    raw = True, logging = False\<rparr>;
            records = findAll opts;
            w1 = w\<lparr>trace := trace w @ [FindAll opts]\<rparr>
        in if length records = 0 then send_remaining remote totalSynced currentBatch w1
           else
             (case for_records remote maxContactsToSync batchSize records
                     totalSynced currentBatch w1 of
                None \<Rightarrow> None
              | Some (Inl err, w2) \<Rightarrow> Some (Inl err, w2)
              | Some (Inr (totalSynced2, currentBatch2), w2) \<Rightarrow>
                  if totalSynced2 \<ge> maxContactsToSync
                  then send_remaining remote totalSynced2 currentBatch2 w2
                  else sync_loop findAll remote maxContactsToSync pageSize batchSize
                         totalSynced2 currentBatch2 (offs + pageSize) w2)
      else Some (Inr totalSynced, w))"
  by pat_completeness auto
termination
proof (relation "measures
    [\<lambda>(findAll, remote, cap, pageSize, bsz, ts, cb, offs, w). cap - ts,
     \<lambda>(findAll, remote, cap, pageSize, bsz, ts, cb, offs, w). bsz - length cb]",
    goal_cases)
  case 1
  show ?case by simp
next
  case (2 findAll remote cap pageSize bsz ts cb offs w rem lim opts records w1 res x1 w2 y ts2 cb2)
  from 2 have run: "for_records remote cap bsz records ts cb w1 = Some (Inr (ts2, cb2), w2)"
    by simp
  from 2 have "records \<noteq> []" "ts < cap" "ts2 < cap" by auto
  with for_records_strict_progress[OF run] show ?case by auto
qed

declare sync_loop.simps [simp del]

text \<open>
  \<open>sync\<close>, for a delivery cap \<open>maxContactsToSync\<close> (the parsed \<open>HUBSPOT_SYNC_LIMIT\<close>, default
  900; a value that parses to no positive number never enters the loop, like cap 0
  here). An error is logged by the \<open>catch\<close> block and thrown again, so the caller sees
  it. Opening and closing the database connection is left out.
\<close>

definition start :: world where
  "start = \<lparr>calls = 0, trace = []\<rparr>"

definition sync :: "store \<Rightarrow> remote \<Rightarrow> nat \<Rightarrow> ((error + nat) \<times> world) option" where
  "sync findAll remote maxContactsToSync =
     sync_loop findAll remote maxContactsToSync 5000 100 0 [] 0 start"

subsection \<open>The specification's reading of validation and normalisation\<close>

text \<open>
  The specification's words: a row passes validation when both required fields are
  present and non-empty; the Record's name is the trimmed Name, its sex is \<open>M\<close> when the
  trimmed Sex is textually \<open>"M"\<close> and \<open>F\<close> otherwise.
\<close>

definition passes_validation :: "row \<Rightarrow> bool" where
  "passes_validation r = (truthy (r ''Name'') \<and> truthy (r ''Sex''))"

definition spec_record :: "row \<Rightarrow> new_baby_name" where
  "spec_record r =
     \<lparr>name = trim (the (r ''Name'')),
      sex = (if trim (the (r ''Sex'')) = ''M'' then M else F)\<rparr>"

text \<open>Two stores: one keeps every batch it is given, one rejects every write.\<close>

definition accepting_store :: "new_baby_name list bulkCreate" where
  "accepting_store table b = (Inr b, table @ b)"

definition failing_store :: "unit bulkCreate" where
  "failing_store u b = (Inl (DbError ''write failed''), u)"

definition skipped :: "log_entry list \<Rightarrow> nat" where
  "skipped l =
     length (filter (\<lambda>e. case e of SkippingInvalidRow _ \<Rightarrow> True | _ \<Rightarrow> False) l)"

text \<open>The batches handed to \<open>bulkCreate\<close> so far, settled or in flight, oldest first.\<close>

definition handed_over :: "'db import_state \<Rightarrow> new_baby_name list list" where
  "handed_over s =
     map fst (answered s) @ (case pending s of None \<Rightarrow> [] | Some b \<Rightarrow> [b])"

text \<open>The errors of the failed writes among the settled ones, and the errors the log
  reports: all write errors, and those of a final batch.\<close>

fun failed_writes :: "('a \<times> (error + 'b)) list \<Rightarrow> error list" where
  "failed_writes [] = []"
| "failed_writes ((b, Inl err) # a) = err # failed_writes a"
| "failed_writes ((b, Inr created) # a) = failed_writes a"

text \<open>The number of records created by the settled writes.\<close>

fun created_total :: "('a \<times> (error + 'b list)) list \<Rightarrow> nat" where
  "created_total [] = 0"
| "created_total ((b, Inl err) # a) = created_total a"
| "created_total ((b, Inr created) # a) = length created + created_total a"

fun logged_write_errors :: "log_entry list \<Rightarrow> error list" where
  "logged_write_errors [] = []"
| "logged_write_errors (BatchInsertError n err # l) = err # logged_write_errors l"
| "logged_write_errors (FinalBatchError err # l) = err # logged_write_errors l"
| "logged_write_errors (e # l) = logged_write_errors l"

fun final_batch_errors :: "log_entry list \<Rightarrow> error list" where
  "final_batch_errors [] = []"
| "final_batch_errors (FinalBatchError err # l) = err # final_batch_errors l"
| "final_batch_errors (e # l) = final_batch_errors l"

text \<open>The importer's state when the \<open>end\<close> handler starts.\<close>

definition at_end ::
  "nat \<Rightarrow> 'db bulkCreate \<Rightarrow> bool \<Rightarrow> 'db \<Rightarrow> row list \<Rightarrow> 'db import_state" where
  "at_end bs bc endFirst db0 rows =
     (let s = foldl (\<lambda>s r. on_data bs r (on_settled bc s)) (initial db0) rows
      in if endFirst then s else on_settled bc s)"

definition scenario_rows :: "row list" where
  "scenario_rows =
     [[''Name'' \<mapsto> ''  John '', ''Sex'' \<mapsto> ''M''],
      [''Name'' \<mapsto> '''', ''Sex'' \<mapsto> ''F''],
      [''Name'' \<mapsto> ''Ann'', ''Sex'' \<mapsto> ''m'']]"

section \<open>Egress: stores, remotes and what a run did\<close>

text \<open>
  A store that holds a table: it serves the rows in the table's own sequence unless
  the options ask for ascending ids, skips \<open>offset\<close> of them and returns at most \<open>limit\<close>.
\<close>

definition table_findAll :: "baby_name list \<Rightarrow> store" where
  "table_findAll tbl opts =
     take (limit opts) (drop (offset opts)
       (case order opts of None \<Rightarrow> tbl | Some IdAscending \<Rightarrow> sort_key row_id tbl))"

text \<open>A remote that accepts every call, and one that answers the first calls of a run
  from a script and accepts every later call.\<close>

definition always_ok :: remote where
  "always_ok n inputs = Resolved 200"

definition scripted :: "reply list \<Rightarrow> remote" where
  "scripted rs n inputs = (if n < length rs then rs ! n else Resolved 200)"

definition throttled :: reply where
  "throttled = Rejected (Some 429)"

definition unauthorized :: reply where
  "unauthorized = Rejected (Some 401)"

definition auth_error :: error where
  "auth_error = AppError ''HUBSPOT_AUTH_ERROR'' 401 ''Invalid HubSpot API key''"

text \<open>The payloads of all outgoing calls of a trace, those of the successful calls, and
  the options of its page fetches, oldest first.\<close>

fun posts :: "event list \<Rightarrow> upsert_input list list" where
  "posts [] = []"
| "posts (Post inputs r # evs) = inputs # posts evs"
| "posts (e # evs) = posts evs"

fun delivered :: "event list \<Rightarrow> upsert_input list list" where
  "delivered [] = []"
| "delivered (Post inputs (Resolved status) # evs) = inputs # delivered evs"
| "delivered (e # evs) = delivered evs"

fun fetches :: "event list \<Rightarrow> find_options list" where
  "fetches [] = []"
| "fetches (FindAll opts # evs) = opts # fetches evs"
| "fetches (e # evs) = fetches evs"

text \<open>The upsert key of a row: the \<open>id\<close> of its entry in the request body.\<close>

definition upsert_key :: "baby_name \<Rightarrow> string" where
  "upsert_key b = input_id (hd (upsert_inputs [formatContactForHubSpot b]))"

text \<open>\<open>k\<close> rounds of a throttled call followed by the fixed wait.\<close>

fun throttled_rounds :: "nat \<Rightarrow> upsert_input list \<Rightarrow> event list" where
  "throttled_rounds 0 inputs = []"
| "throttled_rounds (Suc k) inputs =
     Post inputs throttled # Wait 1000 # throttled_rounds k inputs"

text \<open>What the caller of \<open>sendBatchToHubSpot\<close> gets for the reply that ends the retries.\<close>

definition outcome :: "reply \<Rightarrow> error + unit" where
  "outcome r =
     (case r of
        Resolved status \<Rightarrow> Inr ()
      | Rejected status \<Rightarrow> if status = Some 401 then Inl auth_error else Inl (HttpError status))"

text \<open>The options of the page fetch that \<open>sync\<close> makes with \<open>totalSynced\<close> records counted
  so far, and the world after that fetch.\<close>

definition page_opts :: "nat \<Rightarrow> nat \<Rightarrow> nat \<Rightarrow> nat \<Rightarrow> find_options" where
  "page_opts cap ps ts offs =
     \<lparr>limit = min ps (cap - ts), offset = offs, order = None, raw = True, logging = False\<rparr>"

definition fetched :: "find_options \<Rightarrow> world \<Rightarrow> world" where
  "fetched opts w = w\<lparr>trace := trace w @ [FindAll opts]\<rparr>"

definition row_ann :: baby_name where
  "row_ann = \<lparr>name = ''Ann'', sex = F, row_id = 1\<rparr>"

definition row_bob :: baby_name where
  "row_bob = \<lparr>name = ''Bob'', sex = M, row_id = 2\<rparr>"

text \<open>A call that the remote answered with status 401.\<close>

fun is_unauthorized :: "event \<Rightarrow> bool" where
  "is_unauthorized (Post inputs r) = (r = unauthorized)"
| "is_unauthorized e = False"

text \<open>
  What a step of the run may add to the trace, given its result: no unauthorized call
  when it returns normally; when it throws, the events end with the failed call, no
  earlier call was unauthorized, and an unauthorized last call throws the
  authentication error.
\<close>

definition halts_on_unauthorized :: "error + 'a \<Rightarrow> event list \<Rightarrow> bool" where
  "halts_on_unauthorized res evs =
     (case res of
        Inr v \<Rightarrow> filter is_unauthorized evs = []
      | Inl err \<Rightarrow> evs \<noteq> [] \<and> filter is_unauthorized (butlast evs) = [] \<and>
                   (is_unauthorized (last evs) \<longrightarrow> err = auth_error))"

text \<open>
  The page fetches of a run that starts at offset \<open>offs\<close>: each asks for between 1 and
  \<open>ps\<close> rows (and no more than the cap), names no order, and starts \<open>ps\<close> rows after the
  one before.
\<close>

fun paged :: "nat \<Rightarrow> nat \<Rightarrow> nat \<Rightarrow> find_options list \<Rightarrow> bool" where
  "paged cap ps offs [] = True"
| "paged cap ps offs (opts # rest) =
     (offset opts = offs \<and> 0 < limit opts \<and> limit opts \<le> ps \<and> limit opts \<le> cap \<and>
      order opts = None \<and> paged cap ps (offs + ps) rest)"

text \<open>The pages a run of \<open>sync\<close> read from a table, oldest first (none if the run does
  not return), and a table with the ids \<open>0, 1, 2, \<dots>\<close> in sequence.\<close>

definition pages_read :: "baby_name list \<Rightarrow> remote \<Rightarrow> nat \<Rightarrow> baby_name list list" where
  "pages_read tbl remote cap =
     (case sync (table_findAll tbl) remote cap of
        None \<Rightarrow> []
      | Some (res, w) \<Rightarrow> map (table_findAll tbl) (fetches (trace w)))"

definition numbered :: "nat \<Rightarrow> baby_name" where
  "numbered i = \<lparr>name = ''Ann'', sex = F, row_id = i\<rparr>"

text \<open>The result of a run together with the number of entries of each outgoing call.\<close>

definition call_sizes ::
  "((error + nat) \<times> world) option \<Rightarrow> ((error + nat) \<times> nat list) option" where
  "call_sizes run = map_option (\<lambda>(res, w). (res, map length (posts (trace w)))) run"

text \<open>Rows used as examples.\<close>

definition row_john :: row where
  "row_john = [''Name'' \<mapsto> ''John'', ''Sex'' \<mapsto> ''M'']"

definition row_ann_lower :: baby_name where
  "row_ann_lower = \<lparr>name = ''ann'', sex = F, row_id = 3\<rparr>"

definition row_ann_male :: baby_name where
  "row_ann_male = \<lparr>name = ''Ann'', sex = M, row_id = 4\<rparr>"

definition row_mary_ann :: baby_name where
  "row_mary_ann = \<lparr>name = ''Mary Ann'', sex = F, row_id = 5\<rparr>"

definition row_mary_dot_ann :: baby_name where
  "row_mary_dot_ann = \<lparr>name = ''Mary.Ann'', sex = F, row_id = 6\<rparr>"

text \<open>The number of records delivered by the successful calls of a trace.\<close>

definition delivered_total :: "event list \<Rightarrow> nat" where
  "delivered_total evs = sum_list (map length (delivered evs))"

text \<open>
  Walking a trace with the number \<open>d\<close> of records delivered so far: every page fetch
  happens below the cap and asks for \<open>min ps (cap - d)\<close> rows.
\<close>

fun fetch_limits :: "nat \<Rightarrow> nat \<Rightarrow> nat \<Rightarrow> event list \<Rightarrow> bool" where
  "fetch_limits cap ps d [] = True"
| "fetch_limits cap ps d (FindAll opts # evs) =
     (d < cap \<and> limit opts = min ps (cap - d) \<and> fetch_limits cap ps d evs)"
| "fetch_limits cap ps d (Post inputs (Resolved status) # evs) =
     fetch_limits cap ps (d + length inputs) evs"
| "fetch_limits cap ps d (e # evs) = fetch_limits cap ps d evs"

text \<open>A table of 100 rows whose first two rows are out of id order.\<close>

definition swapped_table :: "baby_name list" where
  "swapped_table = numbered 1 # numbered 0 # map numbered [2..<100]"

section \<open>Ingestion: properties\<close>

subsection \<open>One step at a time\<close>

lemma failed_writes_append [simp]:
  "failed_writes (xs @ ys) = failed_writes xs @ failed_writes ys"
  by (induction xs rule: failed_writes.induct) auto

lemma logged_write_errors_append [simp]:
  "logged_write_errors (xs @ ys) = logged_write_errors xs @ logged_write_errors ys"
  by (induction xs rule: logged_write_errors.induct) auto

lemma final_batch_errors_append [simp]:
  "final_batch_errors (xs @ ys) = final_batch_errors xs @ final_batch_errors ys"
  by (induction xs rule: final_batch_errors.induct) auto

lemma created_total_append [simp]:
  "created_total (xs @ ys) = created_total xs + created_total ys"
  by (induction xs rule: created_total.induct) auto

lemma skipped_append [simp]: "skipped (xs @ ys) = skipped xs + skipped ys"
  by (simp add: skipped_def)

lemma on_settled_keeps:
  "batch (on_settled bc s) = batch s"
  "rowCount (on_settled bc s) = rowCount s"
  "pending (on_settled bc s) = None"
  "handed_over (on_settled bc s) = handed_over s"
  "skipped (log (on_settled bc s)) = skipped (log s)"
  "final_batch_errors (log (on_settled bc s)) = final_batch_errors (log s)"
  by (auto simp: on_settled_def handed_over_def skipped_def
      split: option.splits prod.splits sum.splits)

lemma on_settled_errors:
  "logged_write_errors (log s) = failed_writes (answered s) \<Longrightarrow>
     logged_write_errors (log (on_settled bc s)) = failed_writes (answered (on_settled bc s))"
  by (auto simp: on_settled_def split: option.splits prod.splits sum.splits)

lemma on_data_keeps:
  "rowCount (on_data bs r s) = rowCount s + 1"
  "answered (on_data bs r s) = answered s"
  "logged_write_errors (log (on_data bs r s)) = logged_write_errors (log s)"
  "final_batch_errors (log (on_data bs r s)) = final_batch_errors (log s)"
  "skipped (log (on_data bs r s)) = skipped (log s) + (if passes_validation r then 0 else 1)"
  by (auto simp: on_data_def passes_validation_def skipped_def Let_def)

lemma on_data_produced:
  assumes "pending s = None"
  shows "concat (handed_over (on_data bs r s)) @ batch (on_data bs r s) =
           concat (handed_over s) @ batch s
             @ (if passes_validation r then [spec_record r] else [])"
    and "pending (on_data bs r s) \<noteq> None \<longrightarrow> batch (on_data bs r s) = []"
  using assms
  by (auto simp: on_data_def handed_over_def passes_validation_def spec_record_def Let_def)

lemma on_end_handed_over:
  assumes "pending s \<noteq> None \<longrightarrow> batch s = []"
  shows "concat (handed_over (snd (on_end bc s))) = concat (handed_over s) @ batch s"
  using assms
  by (auto simp: on_end_def handed_over_def Let_def split: prod.splits sum.splits option.splits)

lemma on_end_keeps:
  "rowCount (snd (on_end bc s)) = rowCount s"
  "skipped (log (snd (on_end bc s))) = skipped (log s)"
  by (auto simp: on_end_def skipped_def Let_def split: prod.splits sum.splits)

lemma on_end_errors:
  "logged_write_errors (log s) = failed_writes (answered s) \<Longrightarrow>
     logged_write_errors (log (snd (on_end bc s))) =
       failed_writes (answered (snd (on_end bc s)))"
  by (auto simp: on_end_def Let_def split: prod.splits sum.splits)

lemma on_end_final_error:
  "final_batch_errors (log s) = [] \<Longrightarrow>
     final_batch_errors (log (snd (on_end bc s))) =
       (case fst (on_end bc s) of Inl err \<Rightarrow> [err] | Inr n \<Rightarrow> [])"
  by (auto simp: on_end_def Let_def split: prod.splits sum.splits)

lemma on_end_result:
  "fst (on_end bc s) =
     (if batch s = [] then Inr (totalInserted s)
      else case fst (bc (db s) (batch s)) of
             Inl err \<Rightarrow> Inl err
           | Inr created \<Rightarrow> Inr (totalInserted s + length created))"
  by (auto simp: on_end_def Let_def split: prod.splits sum.splits)

lemma on_settled_count:
  "totalInserted s = created_total (answered s) \<Longrightarrow>
     totalInserted (on_settled bc s) = created_total (answered (on_settled bc s))"
  by (auto simp: on_settled_def split: option.splits prod.splits sum.splits)

lemma on_data_count:
  "totalInserted (on_data bs r s) = totalInserted s"
  by (auto simp: on_data_def Let_def)

lemma on_end_count:
  "totalInserted s = created_total (answered s) \<Longrightarrow> fst (on_end bc s) = Inr n \<Longrightarrow>
     n = created_total (answered (snd (on_end bc s)))"
  by (auto simp: on_end_def Let_def split: prod.splits sum.splits if_splits)

subsection \<open>The whole run\<close>

lemma import_stream_foldl:
  "import_stream bs bc endFirst rows s =
     on_end bc (let s' = foldl (\<lambda>s r. on_data bs r (on_settled bc s)) s rows
                in if endFirst then s' else on_settled bc s')"
  by (induction rows arbitrary: s) (simp_all add: Let_def)

lemma import_stream_produced:
  "pending s \<noteq> None \<longrightarrow> batch s = [] \<Longrightarrow>
   concat (handed_over (snd (import_stream bs bc endFirst rows s))) =
     concat (handed_over s) @ batch s @ map spec_record (filter passes_validation rows) \<and>
   skipped (log (snd (import_stream bs bc endFirst rows s))) =
     skipped (log s) + length (filter (\<lambda>r. \<not> passes_validation r) rows)"
proof (induction rows arbitrary: s)
  case Nil
  then show ?case
    by (simp add: on_end_handed_over on_end_keeps on_settled_keeps)
next
  case (Cons r rows)
  let ?s1 = "on_data bs r (on_settled bc s)"
  have p: "pending (on_settled bc s) = None" by (simp add: on_settled_keeps)
  from on_data_produced[OF p, of bs r] Cons.IH[of ?s1]
  show ?case
    by (simp add: on_settled_keeps on_data_keeps)
qed

lemma import_stream_errors:
  "logged_write_errors (log s) = failed_writes (answered s) \<Longrightarrow>
   final_batch_errors (log s) = [] \<Longrightarrow>
   rowCount (snd (import_stream bs bc endFirst rows s)) = rowCount s + length rows \<and>
   logged_write_errors (log (snd (import_stream bs bc endFirst rows s))) =
     failed_writes (answered (snd (import_stream bs bc endFirst rows s))) \<and>
   final_batch_errors (log (snd (import_stream bs bc endFirst rows s))) =
     (case fst (import_stream bs bc endFirst rows s) of Inl err \<Rightarrow> [err] | Inr n \<Rightarrow> [])"
proof (induction rows arbitrary: s)
  case Nil
  then show ?case
    by (simp add: on_end_keeps on_end_errors on_end_final_error on_settled_keeps
        on_settled_errors)
next
  case (Cons r rows)
  let ?s1 = "on_data bs r (on_settled bc s)"
  from Cons.prems have
    "logged_write_errors (log ?s1) = failed_writes (answered ?s1)"
    "final_batch_errors (log ?s1) = []"
    by (simp_all add: on_data_keeps on_settled_keeps on_settled_errors)
  from Cons.IH[OF this] show ?case
    by (simp add: on_data_keeps on_settled_keeps)
qed

lemma import_stream_count:
  "totalInserted s = created_total (answered s) \<Longrightarrow>
   fst (import_stream bs bc endFirst rows s) = Inr n \<Longrightarrow>
     n = created_total (answered (snd (import_stream bs bc endFirst rows s)))"
proof (induction rows arbitrary: s)
  case Nil
  show ?case
  proof (cases endFirst)
    case True
    with Nil.prems(2) have "fst (on_end bc s) = Inr n" by simp
    from on_end_count[OF Nil.prems(1) this] True show ?thesis by simp
  next
    case False
    with Nil.prems(2) have "fst (on_end bc (on_settled bc s)) = Inr n" by simp
    from on_end_count[OF on_settled_count[OF Nil.prems(1)] this] False show ?thesis by simp
  qed
next
  case (Cons r rows)
  let ?s1 = "on_data bs r (on_settled bc s)"
  from Cons.prems(1) have "totalInserted ?s1 = created_total (answered ?s1)"
    by (simp add: on_data_count on_data_keeps on_settled_count)
  from Cons.IH[OF this] Cons.prems(2) show ?case by simp
qed

text \<open>
  C5. Whatever the batch threshold, the store and the moment \<open>end\<close> fires, the Records
  handed to the store are, in input order, exactly the normalised forms of the rows that
  pass validation: the name is the trimmed Name and the sex is \<open>M\<close> exactly when the
  trimmed Sex is \<open>"M"\<close>, \<open>F\<close> otherwise; every other row is skipped and counted.
\<close>

theorem C5_normalisation:
  "concat (handed_over (snd (import_rows bs bc endFirst db0 rows))) =
     map spec_record (filter passes_validation rows) \<and>
   skipped (log (snd (import_rows bs bc endFirst db0 rows))) =
     length (filter (\<lambda>r. \<not> passes_validation r) rows)"
  using import_stream_produced[of "initial db0" bs bc endFirst rows]
  by (simp add: import_rows_def initial_def handed_over_def skipped_def)

text \<open>The normalisation scenario of the specification, with batch threshold 2.\<close>

theorem C5_scenario:
  "concat (handed_over (snd (import_rows 2 accepting_store True [] scenario_rows))) =
     [\<lparr>name = ''John'', sex = M\<rparr>, \<lparr>name = ''Ann'', sex = F\<rparr>] \<and>
   skipped (log (snd (import_rows 2 accepting_store True [] scenario_rows))) = 1 \<and>
   concat (handed_over (snd (import_rows 2 accepting_store False [] scenario_rows))) =
     [\<lparr>name = ''John'', sex = M\<rparr>, \<lparr>name = ''Ann'', sex = F\<rparr>] \<and>
   skipped (log (snd (import_rows 2 accepting_store False [] scenario_rows))) = 1"
  using C5_normalisation[of 2 accepting_store True "[]" scenario_rows]
    C5_normalisation[of 2 accepting_store False "[]" scenario_rows]
  by (simp add: scenario_rows_def passes_validation_def spec_record_def truthy_def
      trim_def isWhiteSpace_def)

text \<open>
  In the scenario the last row fills the batch. When \<open>end\<close> fires while that write is in
  flight, the run returns the count 0 with nothing stored yet; when the write settles
  first, it returns 2.
\<close>

lemma scenario_counts:
  "fst (import_rows 2 accepting_store True [] scenario_rows) = Inr 0"
  "db (snd (import_rows 2 accepting_store True [] scenario_rows)) = []"
  "fst (import_rows 2 accepting_store False [] scenario_rows) = Inr 2"
  "db (snd (import_rows 2 accepting_store False [] scenario_rows)) =
     [\<lparr>name = ''John'', sex = M\<rparr>, \<lparr>name = ''Ann'', sex = F\<rparr>]"
  by (simp_all add: import_rows_def initial_def scenario_rows_def on_data_def on_settled_def
      on_end_def accepting_store_def truthy_def trim_def isWhiteSpace_def Let_def)

text \<open>
  Threshold 1 and two valid rows: each row starts a write. The write of the first row
  settles before the second row is delivered; when \<open>end\<close> fires while the write of the
  second is in flight, the run returns the count 1 with one record stored.
\<close>

lemma last_write_not_awaited:
  "fst (import_rows 1 accepting_store True []
          [row_john, [''Name'' \<mapsto> ''Ann'', ''Sex'' \<mapsto> ''F'']]) = Inr 1"
  "db (snd (import_rows 1 accepting_store True []
          [row_john, [''Name'' \<mapsto> ''Ann'', ''Sex'' \<mapsto> ''F'']])) =
     [\<lparr>name = ''John'', sex = M\<rparr>]"
  "pending (snd (import_rows 1 accepting_store True []
          [row_john, [''Name'' \<mapsto> ''Ann'', ''Sex'' \<mapsto> ''F'']])) =
     Some [\<lparr>name = ''Ann'', sex = F\<rparr>]"
  "fst (import_rows 1 accepting_store False []
          [row_john, [''Name'' \<mapsto> ''Ann'', ''Sex'' \<mapsto> ''F'']]) = Inr 2"
  by (simp_all add: import_rows_def initial_def row_john_def on_data_def on_settled_def
      on_end_def accepting_store_def truthy_def trim_def isWhiteSpace_def Let_def)

subsection \<open>Write errors\<close>

text \<open>
  C4, as stated, fails on the code: when the write of the final partial batch fails, the
  \<open>end\<close> handler logs the error and rejects, and the run ends with that error instead of
  a count. One valid row, threshold 2, a store that rejects every write:
\<close>

theorem C4_counterexample:
  "fst (import_rows 2 failing_store True () [row_john]) = Inl (DbError ''write failed'') \<and>
   log (snd (import_rows 2 failing_store True () [row_john])) =
     [FinalBatchError (DbError ''write failed'')] \<and>
   fst (import_rows 2 failing_store False () [row_john]) = Inl (DbError ''write failed'') \<and>
   log (snd (import_rows 2 failing_store False () [row_john])) =
     [FinalBatchError (DbError ''write failed'')]"
  by (simp add: import_rows_def initial_def on_data_def on_settled_def on_end_def
      failing_store_def row_john_def truthy_def trim_def isWhiteSpace_def Let_def)

text \<open>
  C4, amended. For every store, threshold, row list and moment at which \<open>end\<close> fires:
  every row goes through the \<open>data\<close> handler; every valid record is handed to the store
  exactly once, so a batch whose write failed is dropped and not sent again; the write
  errors in the log are exactly the errors of the settled writes that failed, in order;
  the log reports a final-batch error exactly when the run ends with that error; the
  run ends with an error exactly when a final partial batch is left at end-of-input and
  its write fails, returning a count otherwise; and that count is the number of records
  created by the writes that have settled. So a failed write of a full batch is logged
  and is never fatal, and a failed write of the final partial batch is logged and fatal.
\<close>

theorem C4_final_batch_fatal:
  "rowCount (snd (import_rows bs bc endFirst db0 rows)) = length rows \<and>
   concat (handed_over (snd (import_rows bs bc endFirst db0 rows))) =
     map spec_record (filter passes_validation rows) \<and>
   logged_write_errors (log (snd (import_rows bs bc endFirst db0 rows))) =
     failed_writes (answered (snd (import_rows bs bc endFirst db0 rows))) \<and>
   final_batch_errors (log (snd (import_rows bs bc endFirst db0 rows))) =
     (case fst (import_rows bs bc endFirst db0 rows) of Inl err \<Rightarrow> [err] | Inr n \<Rightarrow> []) \<and>
   fst (import_rows bs bc endFirst db0 rows) =
     (let s = at_end bs bc endFirst db0 rows in
      if batch s = [] then Inr (totalInserted s)
      else case fst (bc (db s) (batch s)) of
             Inl err \<Rightarrow> Inl err
           | Inr created \<Rightarrow> Inr (totalInserted s + length created)) \<and>
   (case fst (import_rows bs bc endFirst db0 rows) of
      Inl err \<Rightarrow> True
    | Inr n \<Rightarrow> n = created_total (answered (snd (import_rows bs bc endFirst db0 rows))))"
proof -
  have e: "logged_write_errors (log (initial db0)) = failed_writes (answered (initial db0))"
    "final_batch_errors (log (initial db0)) = []"
    by (simp_all add: initial_def)
  have p: "pending (initial db0) \<noteq> None \<longrightarrow> batch (initial db0) = []"
    by (simp add: initial_def)
  have r: "fst (import_rows bs bc endFirst db0 rows) =
     (let s = at_end bs bc endFirst db0 rows in
      if batch s = [] then Inr (totalInserted s)
      else case fst (bc (db s) (batch s)) of
             Inl err \<Rightarrow> Inl err
           | Inr created \<Rightarrow> Inr (totalInserted s + length created))"
    by (simp add: import_rows_def import_stream_foldl at_end_def on_end_result Let_def)
  have c: "totalInserted (initial db0) = created_total (answered (initial db0))"
    by (simp add: initial_def)
  from import_stream_count[OF c, of bs bc endFirst rows]
  have n: "case fst (import_rows bs bc endFirst db0 rows) of
      Inl err \<Rightarrow> True
    | Inr n \<Rightarrow> n = created_total (answered (snd (import_rows bs bc endFirst db0 rows)))"
    by (simp add: import_rows_def split: sum.splits)
  from import_stream_errors[OF e, of bs bc endFirst rows]
    import_stream_produced[OF p, of bs bc endFirst rows]
  have "rowCount (snd (import_rows bs bc endFirst db0 rows)) = length rows \<and>
   concat (handed_over (snd (import_rows bs bc endFirst db0 rows))) =
     map spec_record (filter passes_validation rows) \<and>
   logged_write_errors (log (snd (import_rows bs bc endFirst db0 rows))) =
     failed_writes (answered (snd (import_rows bs bc endFirst db0 rows))) \<and>
   final_batch_errors (log (snd (import_rows bs bc endFirst db0 rows))) =
     (case fst (import_rows bs bc endFirst db0 rows) of Inl err \<Rightarrow> [err] | Inr n \<Rightarrow> [])"
    by (simp add: import_rows_def initial_def handed_over_def)
  with r n show ?thesis by blast
qed

text \<open>
  Two valid rows, threshold 1, a store that rejects every write: both writes fail, none
  is fatal. When the second write settles before \<open>end\<close>, both errors are in the log; when
  \<open>end\<close> fires first, the run returns while the second write is in flight.
\<close>

theorem C4_witness:
  "fst (import_rows 1 failing_store False () [row_john, row_john]) = Inr 0 \<and>
   log (snd (import_rows 1 failing_store False () [row_john, row_john])) =
     [BatchInsertError 1 (DbError ''write failed''),
      BatchInsertError 2 (DbError ''write failed''), ImportComplete 0 2] \<and>
   failed_writes (answered (snd (import_rows 1 failing_store False () [row_john, row_john])))
     = [DbError ''write failed'', DbError ''write failed''] \<and>
   rowCount (snd (import_rows 1 failing_store False () [row_john, row_john])) = 2 \<and>
   fst (import_rows 1 failing_store True () [row_john, row_john]) = Inr 0 \<and>
   log (snd (import_rows 1 failing_store True () [row_john, row_john])) =
     [BatchInsertError 1 (DbError ''write failed''), ImportComplete 0 2] \<and>
   pending (snd (import_rows 1 failing_store True () [row_john, row_john])) =
     Some [\<lparr>name = ''John'', sex = M\<rparr>]"
proof -
  have l: "log (snd (import_rows 1 failing_store False () [row_john, row_john])) =
     [BatchInsertError 1 (DbError ''write failed''),
      BatchInsertError 2 (DbError ''write failed''), ImportComplete 0 2]"
    "log (snd (import_rows 1 failing_store True () [row_john, row_john])) =
     [BatchInsertError 1 (DbError ''write failed''), ImportComplete 0 2]"
    "pending (snd (import_rows 1 failing_store True () [row_john, row_john])) =
     Some [\<lparr>name = ''John'', sex = M\<rparr>]"
    by (simp_all add: import_rows_def initial_def on_data_def on_settled_def on_end_def
        failing_store_def row_john_def truthy_def trim_def isWhiteSpace_def Let_def)
  from C4_final_batch_fatal[of 1 failing_store False "()" "[row_john, row_john]"]
    C4_final_batch_fatal[of 1 failing_store True "()" "[row_john, row_john]"] l
  show ?thesis
    by (cases "fst (import_rows 1 failing_store False () [row_john, row_john])";
        cases "fst (import_rows 1 failing_store True () [row_john, row_john])")
       (simp_all add: at_end_def initial_def on_data_def on_settled_def failing_store_def
         row_john_def truthy_def trim_def isWhiteSpace_def Let_def)
qed

section \<open>Egress: properties\<close>

subsection \<open>Traces\<close>

lemma posts_append [simp]: "posts (xs @ ys) = posts xs @ posts ys"
  by (induction xs rule: posts.induct) auto

lemma delivered_append [simp]: "delivered (xs @ ys) = delivered xs @ delivered ys"
  by (induction xs rule: delivered.induct) auto

lemma fetches_append [simp]: "fetches (xs @ ys) = fetches xs @ fetches ys"
  by (induction xs rule: fetches.induct) auto

subsection \<open>sendBatchToHubSpot\<close>

lemma sendBatch_step_throttled:
  "remote (calls w) (upsert_inputs b) = throttled \<Longrightarrow>
   sendBatchToHubSpot remote b w =
     sendBatchToHubSpot remote b
       (w\<lparr>calls := calls w + 1,
          trace := trace w @ [Post (upsert_inputs b) throttled, Wait 1000]\<rparr>)"
  by (subst sendBatchToHubSpot.simps) (simp add: throttled_def)

lemma sendBatch_step_final:
  "remote (calls w) (upsert_inputs b) = r \<Longrightarrow> r \<noteq> throttled \<Longrightarrow>
   sendBatchToHubSpot remote b w =
     Some (outcome r, w\<lparr>calls := calls w + 1, trace := trace w @ [Post (upsert_inputs b) r]\<rparr>)"
  by (subst sendBatchToHubSpot.simps)
     (auto simp: throttled_def outcome_def auth_error_def split: reply.splits)

lemma sendBatch_after_throttles:
  "(\<forall>j<k. remote (calls w + j) (upsert_inputs b) = throttled) \<Longrightarrow>
   remote (calls w + k) (upsert_inputs b) = r \<Longrightarrow> r \<noteq> throttled \<Longrightarrow>
   sendBatchToHubSpot remote b w =
     Some (outcome r,
           w\<lparr>calls := calls w + k + 1,
             trace := trace w @ throttled_rounds k (upsert_inputs b) @ [Post (upsert_inputs b) r]\<rparr>)"
proof (induction k arbitrary: w)
  case 0
  then show ?case using sendBatch_step_final[of remote w b r] by simp
next
  case (Suc k)
  let ?w1 = "w\<lparr>calls := calls w + 1,
          trace := trace w @ [Post (upsert_inputs b) throttled, Wait 1000]\<rparr>"
  from Suc.prems(1) have "remote (calls w) (upsert_inputs b) = throttled" by auto
  then have step: "sendBatchToHubSpot remote b w = sendBatchToHubSpot remote b ?w1"
    by (rule sendBatch_step_throttled)
  have "\<forall>j<k. remote (calls ?w1 + j) (upsert_inputs b) = throttled"
    using Suc.prems(1) by (auto simp: less_Suc_eq_0_disj)
  moreover have "remote (calls ?w1 + k) (upsert_inputs b) = r" using Suc.prems(2) by simp
  ultimately show ?case using Suc.IH[of ?w1] Suc.prems(3) step by simp
qed

lemma sendBatch_Some_aux:
  "sendBatchToHubSpot remote b w = Some y \<Longrightarrow>
   \<exists>k r. r \<noteq> throttled \<and> fst y = outcome r \<and> calls (snd y) = calls w + k + 1 \<and>
         trace (snd y) =
           trace w @ throttled_rounds k (upsert_inputs b) @ [Post (upsert_inputs b) r]"
proof (induction rule: sendBatchToHubSpot.raw_induct[rotated 1, consumes 1, case_names step])
  case (step send remote b w y)
  show ?case
  proof (cases "remote (calls w) (upsert_inputs b) = throttled")
    case True
    let ?w1 = "w\<lparr>calls := calls w + 1,
          trace := trace w @ [Post (upsert_inputs b) throttled, Wait 1000]\<rparr>"
    from True step.hyps have "send remote b ?w1 = Some y"
      by (simp add: throttled_def Let_def)
    from step.IH[OF this] obtain k r where
      "r \<noteq> throttled" "fst y = outcome r" "calls (snd y) = calls ?w1 + k + 1"
      "trace (snd y) =
         trace ?w1 @ throttled_rounds k (upsert_inputs b) @ [Post (upsert_inputs b) r]"
      by blast
    then show ?thesis
      by (intro exI[of _ "Suc k"] exI[of _ r]) simp
  next
    case False
    with step.hyps show ?thesis
      by (intro exI[of _ 0] exI[of _ "remote (calls w) (upsert_inputs b)"])
         (auto simp: throttled_def outcome_def auth_error_def Let_def
               split: reply.splits if_splits)
  qed
qed

lemma sendBatch_Some:
  "sendBatchToHubSpot remote b w = Some (res, w') \<Longrightarrow>
   \<exists>k r. r \<noteq> throttled \<and> res = outcome r \<and> calls w' = calls w + k + 1 \<and>
         trace w' =
           trace w @ throttled_rounds k (upsert_inputs b) @ [Post (upsert_inputs b) r]"
  using sendBatch_Some_aux[of remote b w "(res, w')"] by simp

subsection \<open>The loop of sync, one iteration at a time\<close>

lemma trace_fetched [simp]: "trace (fetched opts w) = trace w @ [FindAll opts]"
  by (simp add: fetched_def)

lemma calls_fetched [simp]: "calls (fetched opts w) = calls w"
  by (simp add: fetched_def)

lemma sync_loop_unfold:
  "sync_loop findAll remote cap ps bsz ts cb offs w =
     (if ts < cap then
        if findAll (page_opts cap ps ts offs) = []
        then send_remaining remote ts cb (fetched (page_opts cap ps ts offs) w)
        else (case for_records remote cap bsz (findAll (page_opts cap ps ts offs)) ts cb
                     (fetched (page_opts cap ps ts offs) w) of
                None \<Rightarrow> None
              | Some (Inl err, w2) \<Rightarrow> Some (Inl err, w2)
              | Some (Inr (ts2, cb2), w2) \<Rightarrow>
                  if cap \<le> ts2 then send_remaining remote ts2 cb2 w2
                  else sync_loop findAll remote cap ps bsz ts2 cb2 (offs + ps) w2)
      else Some (Inr ts, w))"
  by (subst sync_loop.simps) (simp add: Let_def page_opts_def fetched_def)

lemma sync_loop_induct_Some [consumes 1, case_names finished exhausted failed capped continue]:
  assumes run: "sync_loop findAll remote cap ps bsz ts cb offs w = Some (res, w')"
    and finished: "\<And>ts cb offs w. \<not> ts < cap \<Longrightarrow> P ts cb offs w (Inr ts) w"
    and exhausted: "\<And>ts cb offs w res w'. ts < cap \<Longrightarrow> findAll (page_opts cap ps ts offs) = [] \<Longrightarrow>
        send_remaining remote ts cb (fetched (page_opts cap ps ts offs) w) = Some (res, w') \<Longrightarrow>
        P ts cb offs w res w'"
    and failed: "\<And>ts cb offs w err w'. ts < cap \<Longrightarrow> findAll (page_opts cap ps ts offs) \<noteq> [] \<Longrightarrow>
        for_records remote cap bsz (findAll (page_opts cap ps ts offs)) ts cb
          (fetched (page_opts cap ps ts offs) w) = Some (Inl err, w') \<Longrightarrow>
        P ts cb offs w (Inl err) w'"
    and capped: "\<And>ts cb offs w ts2 cb2 w2 res w'. ts < cap \<Longrightarrow>
        findAll (page_opts cap ps ts offs) \<noteq> [] \<Longrightarrow>
        for_records remote cap bsz (findAll (page_opts cap ps ts offs)) ts cb
          (fetched (page_opts cap ps ts offs) w) = Some (Inr (ts2, cb2), w2) \<Longrightarrow>
        cap \<le> ts2 \<Longrightarrow> send_remaining remote ts2 cb2 w2 = Some (res, w') \<Longrightarrow>
        P ts cb offs w res w'"
    and continue: "\<And>ts cb offs w ts2 cb2 w2 res w'. ts < cap \<Longrightarrow>
        findAll (page_opts cap ps ts offs) \<noteq> [] \<Longrightarrow>
        for_records remote cap bsz (findAll (page_opts cap ps ts offs)) ts cb
          (fetched (page_opts cap ps ts offs) w) = Some (Inr (ts2, cb2), w2) \<Longrightarrow>
        ts2 < cap \<Longrightarrow>
        sync_loop findAll remote cap ps bsz ts2 cb2 (offs + ps) w2 = Some (res, w') \<Longrightarrow>
        P ts2 cb2 (offs + ps) w2 res w' \<Longrightarrow> P ts cb offs w res w'"
  shows "P ts cb offs w res w'"
  using assms
proof (induction findAll remote cap ps bsz ts cb offs w arbitrary: res w' rule: sync_loop.induct)
  case (1 findAll remote cap ps bsz ts cb offs w)
  let ?opts = "page_opts cap ps ts offs"
  let ?w1 = "fetched ?opts w"
  show ?case
  proof (cases "ts < cap")
    case False
    with "1.prems"(1) have "res = Inr ts" "w' = w"
      by (simp_all add: sync_loop_unfold)
    then show ?thesis
      using "1.prems"(2)[OF False, of cb offs w] by simp
  next
    case lt: True
    show ?thesis
    proof (cases "findAll ?opts = []")
      case True
      with lt "1.prems"(1) have "send_remaining remote ts cb ?w1 = Some (res, w')"
        by (simp add: sync_loop_unfold)
      with lt True show ?thesis using "1.prems"(3) by blast
    next
      case nonempty: False
      from lt nonempty "1.prems"(1) obtain r2 w2 where
        fr: "for_records remote cap bsz (findAll ?opts) ts cb ?w1 = Some (r2, w2)"
        by (subst (asm) sync_loop_unfold) (auto split: option.splits)
      show ?thesis
      proof (cases r2)
        case (Inl err)
        with lt nonempty fr "1.prems"(1) have "res = Inl err" "w' = w2"
          by (subst (asm) sync_loop_unfold, simp)+
        with lt nonempty fr Inl show ?thesis using "1.prems"(4) by blast
      next
        case (Inr p)
        obtain ts2 cb2 where p: "p = (ts2, cb2)" by (cases p)
        show ?thesis
        proof (cases "cap \<le> ts2")
          case True
          with lt nonempty fr Inr p "1.prems"(1)
          have "send_remaining remote ts2 cb2 w2 = Some (res, w')"
            by (subst (asm) sync_loop_unfold) simp
          with lt nonempty fr Inr p True show ?thesis using "1.prems"(5) by blast
        next
          case False
          with lt nonempty fr Inr p "1.prems"(1)
          have rec: "sync_loop findAll remote cap ps bsz ts2 cb2 (offs + ps) w2 = Some (res, w')"
            by (subst (asm) sync_loop_unfold) simp
          have "P ts2 cb2 (offs + ps) w2 res w'"
          proof (rule "1.IH"[OF lt refl refl refl refl refl _ _ refl _ refl _ rec "1.prems"(2-6)])
            show "length (findAll \<lparr>limit = min ps (cap - ts), offset = offs, order = None,
                     raw = True, logging = False\<rparr>) \<noteq> 0"
              using nonempty by (simp add: page_opts_def)
            show "for_records remote cap bsz
                    (findAll \<lparr>limit = min ps (cap - ts), offset = offs, order = None,
                       raw = True, logging = False\<rparr>) ts cb
                    (w\<lparr>trace := trace w @ [FindAll \<lparr>limit = min ps (cap - ts), offset = offs,
                       order = None, raw = True, logging = False\<rparr>]\<rparr>) =
                  Some (Inr (ts2, cb2), w2)"
              using fr Inr p by (simp add: page_opts_def fetched_def)
            show "Inr (ts2, cb2) = Inr (ts2, cb2)" by simp
            show "\<not> cap \<le> ts2" by (rule False)
          qed
          with lt nonempty fr Inr p False rec show ?thesis using "1.prems"(6)[of ts offs cb w ts2 cb2 w2 res w'] by simp
        qed
      qed
    qed
  qed
qed

subsection \<open>The size of outgoing calls\<close>

lemma posts_throttled_rounds [simp]: "posts (throttled_rounds k inputs) = replicate k inputs"
  by (induction k) (simp_all add: throttled_def)

lemma fetches_throttled_rounds [simp]: "fetches (throttled_rounds k inputs) = []"
  by (induction k) (simp_all add: throttled_def)

lemma length_upsert_inputs [simp]: "length (upsert_inputs b) = length b"
  by (simp add: upsert_inputs_def)

lemma sendBatch_posts:
  assumes "sendBatchToHubSpot remote b w = Some (res, w')"
  shows "set (posts (trace w')) = set (posts (trace w)) \<union> {upsert_inputs b}"
proof -
  from sendBatch_Some[OF assms] obtain k r where
    "trace w' = trace w @ throttled_rounds k (upsert_inputs b) @ [Post (upsert_inputs b) r]"
    by blast
  then show ?thesis by auto
qed

lemma send_remaining_posts:
  assumes "send_remaining remote ts cb w = Some (res, w')"
    and "p \<in> set (posts (trace w'))"
  shows "p \<in> set (posts (trace w)) \<or> (length p = length cb \<and> 0 < length cb)"
proof (cases "length cb > 0")
  case True
  with assms(1) obtain r1 where "sendBatchToHubSpot remote cb w = Some (r1, w')"
    by (auto simp: send_remaining_def split: option.splits sum.splits)
  from sendBatch_posts[OF this] assms(2) True show ?thesis by auto
next
  case False
  with assms show ?thesis by (simp add: send_remaining_def)
qed

lemma for_records_posts:
  "for_records remote cap bsz records ts cb w = Some (res, w') \<Longrightarrow> length cb < bsz \<Longrightarrow>
     (\<forall>p\<in>set (posts (trace w')). p \<in> set (posts (trace w)) \<or> length p = bsz) \<and>
     (\<forall>ts' cb'. res = Inr (ts', cb') \<longrightarrow> length cb' < bsz)"
proof (induction records arbitrary: ts cb w)
  case Nil
  then show ?case by auto
next
  case (Cons r records)
  show ?case
  proof (cases "cap \<le> ts")
    case True
    with Cons.prems show ?thesis by auto
  next
    case notcap: False
    let ?cb1 = "cb @ [formatContactForHubSpot r]"
    show ?thesis
    proof (cases "bsz \<le> length ?cb1")
      case True
      with Cons.prems(2) have len: "length ?cb1 = bsz" by simp
      from notcap True Cons.prems(1) obtain r1 w1 where
        send: "sendBatchToHubSpot remote ?cb1 w = Some (r1, w1)"
        by (auto simp: Let_def split: option.splits)
      from sendBatch_posts[OF send] len
      have p1: "\<forall>p\<in>set (posts (trace w1)). p \<in> set (posts (trace w)) \<or> length p = bsz"
        by auto
      show ?thesis
      proof (cases r1)
        case (Inl err)
        with notcap True send Cons.prems(1) have "res = Inl err" "w' = w1"
          by (auto simp: Let_def)
        with p1 show ?thesis by simp
      next
        case (Inr u)
        with notcap True send Cons.prems(1) have
          "for_records remote cap bsz records (ts + length ?cb1) [] w1 = Some (res, w')"
          by (auto simp: Let_def)
        from Cons.IH[OF this] Cons.prems(2) p1 show ?thesis by auto
      qed
    next
      case False
      with notcap Cons.prems(1) have
        "for_records remote cap bsz records ts ?cb1 w = Some (res, w')"
        by (simp add: Let_def)
      from Cons.IH[OF this] False show ?thesis by simp
    qed
  qed
qed

lemma sync_loop_posts:
  assumes "sync_loop findAll remote cap ps bsz ts cb offs w = Some (res, w')"
    and "length cb < bsz"
  shows "\<forall>p\<in>set (posts (trace w')).
           p \<in> set (posts (trace w)) \<or> (1 \<le> length p \<and> length p \<le> bsz)"
  using assms
proof (induction rule: sync_loop_induct_Some)
  case (finished ts cb offs w)
  then show ?case by simp
next
  case (exhausted ts cb offs w res w')
  show ?case
  proof
    fix p assume "p \<in> set (posts (trace w'))"
    from send_remaining_posts[OF exhausted(3) this]
    have "p \<in> set (posts (trace w)) \<or> (length p = length cb \<and> 0 < length cb)" by simp
    with exhausted(4)
    show "p \<in> set (posts (trace w)) \<or> (1 \<le> length p \<and> length p \<le> bsz)" by linarith
  qed
next
  case (failed ts cb offs w err w')
  show ?case
  proof
    fix p assume "p \<in> set (posts (trace w'))"
    with for_records_posts[OF failed(3,4)]
    have "p \<in> set (posts (trace w)) \<or> length p = bsz" by simp
    with failed(4)
    show "p \<in> set (posts (trace w)) \<or> (1 \<le> length p \<and> length p \<le> bsz)" by linarith
  qed
next
  case (capped ts cb offs w ts2 cb2 w2 res w')
  from for_records_posts[OF capped(3) capped(6)] have
    a: "\<And>p. p \<in> set (posts (trace w2)) \<Longrightarrow> p \<in> set (posts (trace w)) \<or> length p = bsz"
    and b: "length cb2 < bsz" by simp_all
  show ?case
  proof
    fix p assume "p \<in> set (posts (trace w'))"
    from send_remaining_posts[OF capped(5) this]
    have "p \<in> set (posts (trace w2)) \<or> (length p = length cb2 \<and> 0 < length cb2)" .
    with a[of p] have
      "p \<in> set (posts (trace w)) \<or> length p = bsz \<or> (length p = length cb2 \<and> 0 < length cb2)"
      by blast
    with b
    show "p \<in> set (posts (trace w)) \<or> (1 \<le> length p \<and> length p \<le> bsz)" by linarith
  qed
next
  case (continue ts cb offs w ts2 cb2 w2 res w')
  from for_records_posts[OF continue(3) continue(7)] have
    a: "\<And>p. p \<in> set (posts (trace w2)) \<Longrightarrow> p \<in> set (posts (trace w)) \<or> length p = bsz"
    and b: "length cb2 < bsz" by simp_all
  show ?case
  proof
    fix p assume "p \<in> set (posts (trace w'))"
    with continue(6)[OF b]
    have "p \<in> set (posts (trace w2)) \<or> (1 \<le> length p \<and> length p \<le> bsz)" by blast
    with a[of p] have
      "p \<in> set (posts (trace w)) \<or> length p = bsz \<or> (1 \<le> length p \<and> length p \<le> bsz)"
      by blast
    with b
    show "p \<in> set (posts (trace w)) \<or> (1 \<le> length p \<and> length p \<le> bsz)" by linarith
  qed
qed

subsection \<open>An unauthorized call ends the run\<close>

lemma filter_unauth_rounds [simp]: "filter is_unauthorized (throttled_rounds k inputs) = []"
  by (induction k) (simp_all add: throttled_def unauthorized_def)

lemma halts_append:
  "filter is_unauthorized evs1 = [] \<Longrightarrow> halts_on_unauthorized res evs2 \<Longrightarrow>
     halts_on_unauthorized res (evs1 @ evs2)"
  by (auto simp: halts_on_unauthorized_def butlast_append split: sum.splits)

lemma halts_Inr_quiet:
  "halts_on_unauthorized (Inr v) evs \<Longrightarrow> filter is_unauthorized evs = []"
  by (simp add: halts_on_unauthorized_def)

lemma halts_Inl_cong:
  "halts_on_unauthorized (Inl err :: error + 'a) evs \<Longrightarrow>
   halts_on_unauthorized (Inl err :: error + 'b) evs"
  by (simp add: halts_on_unauthorized_def)

lemma sendBatch_halts:
  assumes "sendBatchToHubSpot remote b w = Some (res, w')"
  shows "\<exists>evs. trace w' = trace w @ evs \<and> halts_on_unauthorized res evs"
proof -
  from sendBatch_Some[OF assms] obtain k r where
    r: "r \<noteq> throttled" "res = outcome r"
    and tr: "trace w' =
      trace w @ throttled_rounds k (upsert_inputs b) @ [Post (upsert_inputs b) r]"
    by blast
  have "halts_on_unauthorized res
          (throttled_rounds k (upsert_inputs b) @ [Post (upsert_inputs b) r])"
    using r by (auto simp: halts_on_unauthorized_def outcome_def unauthorized_def
        split: reply.splits sum.splits if_splits)
  with tr show ?thesis by blast
qed

lemma send_remaining_halts:
  assumes "send_remaining remote ts cb w = Some (res, w')"
  shows "\<exists>evs. trace w' = trace w @ evs \<and> halts_on_unauthorized res evs"
proof (cases "length cb > 0")
  case True
  with assms obtain r1 where
    send: "sendBatchToHubSpot remote cb w = Some (r1, w')"
    and res: "res = (case r1 of Inl err \<Rightarrow> Inl err | Inr u \<Rightarrow> Inr (ts + length cb))"
    by (auto simp: send_remaining_def split: option.splits sum.splits)
  from sendBatch_halts[OF send] obtain evs where
    "trace w' = trace w @ evs" "halts_on_unauthorized r1 evs" by blast
  with res show ?thesis
    by (cases r1) (auto simp: halts_on_unauthorized_def)
next
  case False
  with assms show ?thesis by (auto simp: send_remaining_def halts_on_unauthorized_def)
qed

lemma for_records_halts:
  "for_records remote cap bsz records ts cb w = Some (res, w') \<Longrightarrow>
     \<exists>evs. trace w' = trace w @ evs \<and> halts_on_unauthorized res evs"
proof (induction records arbitrary: ts cb w)
  case Nil
  then show ?case by (auto simp: halts_on_unauthorized_def)
next
  case (Cons r records)
  show ?case
  proof (cases "cap \<le> ts")
    case True
    with Cons.prems show ?thesis by (auto simp: halts_on_unauthorized_def)
  next
    case notcap: False
    let ?cb1 = "cb @ [formatContactForHubSpot r]"
    show ?thesis
    proof (cases "bsz \<le> length ?cb1")
      case True
      from notcap True Cons.prems obtain r1 w1 where
        send: "sendBatchToHubSpot remote ?cb1 w = Some (r1, w1)"
        by (auto simp: Let_def split: option.splits)
      from sendBatch_halts[OF send] obtain evs1 where
        evs1: "trace w1 = trace w @ evs1" "halts_on_unauthorized r1 evs1" by blast
      show ?thesis
      proof (cases r1)
        case (Inl err)
        with notcap True send Cons.prems have "res = Inl err" "w' = w1"
          by (auto simp: Let_def)
        with evs1 Inl show ?thesis using halts_Inl_cong by blast
      next
        case (Inr u)
        with notcap True send Cons.prems have
          "for_records remote cap bsz records (ts + length ?cb1) [] w1 = Some (res, w')"
          by (auto simp: Let_def)
        from Cons.IH[OF this] obtain evs2 where
          evs2: "trace w' = trace w1 @ evs2" "halts_on_unauthorized res evs2" by blast
        from evs1 Inr have "filter is_unauthorized evs1 = []"
          by (simp add: halts_Inr_quiet)
        from halts_append[OF this evs2(2)] evs1(1) evs2(1) show ?thesis by auto
      qed
    next
      case False
      with notcap Cons.prems have
        "for_records remote cap bsz records ts ?cb1 w = Some (res, w')"
        by (simp add: Let_def)
      from Cons.IH[OF this] show ?thesis .
    qed
  qed
qed

lemma sync_loop_halts:
  assumes "sync_loop findAll remote cap ps bsz ts cb offs w = Some (res, w')"
  shows "\<exists>evs. trace w' = trace w @ evs \<and> halts_on_unauthorized res evs"
  using assms
proof (induction rule: sync_loop_induct_Some)
  case (finished ts cb offs w)
  then show ?case by (simp add: halts_on_unauthorized_def)
next
  case (exhausted ts cb offs w res w')
  from send_remaining_halts[OF exhausted(3)] obtain evs where
    evs: "trace w' = trace w @ FindAll (page_opts cap ps ts offs) # evs"
      "halts_on_unauthorized res evs" by auto
  from halts_append[of "[FindAll (page_opts cap ps ts offs)]" res evs] evs
  show ?case by auto
next
  case (failed ts cb offs w err w')
  from for_records_halts[OF failed(3)] obtain evs where
    evs: "trace w' = trace w @ FindAll (page_opts cap ps ts offs) # evs"
      "halts_on_unauthorized (Inl err :: error + nat \<times> contact list) evs" by auto
  from evs(2) have "halts_on_unauthorized (Inl err :: error + nat) evs"
    by (rule halts_Inl_cong)
  from halts_append[of "[FindAll (page_opts cap ps ts offs)]" _ evs, OF _ this] evs(1)
  show ?case by auto
next
  case (capped ts cb offs w ts2 cb2 w2 res w')
  from for_records_halts[OF capped(3)] obtain evs1 where
    evs1: "trace w2 = trace w @ FindAll (page_opts cap ps ts offs) # evs1"
      "filter is_unauthorized evs1 = []" by (auto dest: halts_Inr_quiet)
  from send_remaining_halts[OF capped(5)] obtain evs2 where
    evs2: "trace w' = trace w2 @ evs2" "halts_on_unauthorized res evs2" by blast
  from halts_append[of "FindAll (page_opts cap ps ts offs) # evs1" res evs2] evs1 evs2
  show ?case by auto
next
  case (continue ts cb offs w ts2 cb2 w2 res w')
  from for_records_halts[OF continue(3)] obtain evs1 where
    evs1: "trace w2 = trace w @ FindAll (page_opts cap ps ts offs) # evs1"
      "filter is_unauthorized evs1 = []" by (auto dest: halts_Inr_quiet)
  from continue(6) obtain evs2 where
    evs2: "trace w' = trace w2 @ evs2" "halts_on_unauthorized res evs2" by blast
  from halts_append[of "FindAll (page_opts cap ps ts offs) # evs1" res evs2] evs1 evs2
  show ?case by auto
qed

lemma halts_unauthorized_last:
  assumes "halts_on_unauthorized res evs"
    and "evs = before @ Post inputs unauthorized # after"
  shows "after = [] \<and> res = Inl auth_error"
proof (cases res)
  case (Inr v)
  with assms show ?thesis by (simp add: halts_on_unauthorized_def)
next
  case (Inl err)
  with assms(1) have ne: "evs \<noteq> []" and q: "filter is_unauthorized (butlast evs) = []"
    and l: "is_unauthorized (last evs) \<longrightarrow> err = auth_error"
    by (simp_all add: halts_on_unauthorized_def)
  have after: "after = []"
  proof (rule ccontr)
    assume "after \<noteq> []"
    then have "butlast evs = before @ Post inputs unauthorized # butlast after"
      using assms(2) by (simp add: butlast_append)
    with q show False by simp
  qed
  with assms(2) l Inl show ?thesis by simp
qed

subsection \<open>Page fetches\<close>

lemma sendBatch_fetches:
  assumes "sendBatchToHubSpot remote b w = Some (res, w')"
  shows "fetches (trace w') = fetches (trace w)"
proof -
  from sendBatch_Some[OF assms] obtain k r where
    "trace w' = trace w @ throttled_rounds k (upsert_inputs b) @ [Post (upsert_inputs b) r]"
    by blast
  then show ?thesis by simp
qed

lemma send_remaining_fetches:
  assumes "send_remaining remote ts cb w = Some (res, w')"
  shows "fetches (trace w') = fetches (trace w)"
proof (cases "length cb > 0")
  case True
  with assms obtain r1 where "sendBatchToHubSpot remote cb w = Some (r1, w')"
    by (auto simp: send_remaining_def split: option.splits sum.splits)
  then show ?thesis by (rule sendBatch_fetches)
next
  case False
  with assms show ?thesis by (simp add: send_remaining_def)
qed

lemma for_records_fetches:
  "for_records remote cap bsz records ts cb w = Some (res, w') \<Longrightarrow>
     fetches (trace w') = fetches (trace w)"
proof (induction records arbitrary: ts cb w)
  case Nil
  then show ?case by simp
next
  case (Cons r records)
  show ?case
  proof (cases "cap \<le> ts")
    case True
    with Cons.prems show ?thesis by simp
  next
    case notcap: False
    let ?cb1 = "cb @ [formatContactForHubSpot r]"
    show ?thesis
    proof (cases "bsz \<le> length ?cb1")
      case True
      from notcap True Cons.prems obtain r1 w1 where
        send: "sendBatchToHubSpot remote ?cb1 w = Some (r1, w1)"
        by (auto simp: Let_def split: option.splits)
      note f1 = sendBatch_fetches[OF send]
      show ?thesis
      proof (cases r1)
        case (Inl err)
        with notcap True send Cons.prems have "w' = w1" by (auto simp: Let_def)
        with f1 show ?thesis by simp
      next
        case (Inr u)
        with notcap True send Cons.prems have
          "for_records remote cap bsz records (ts + length ?cb1) [] w1 = Some (res, w')"
          by (auto simp: Let_def)
        from Cons.IH[OF this] f1 show ?thesis by simp
      qed
    next
      case False
      with notcap Cons.prems have
        "for_records remote cap bsz records ts ?cb1 w = Some (res, w')"
        by (simp add: Let_def)
      from Cons.IH[OF this] show ?thesis .
    qed
  qed
qed

lemma paged_page_opts:
  "ts < cap \<Longrightarrow> 0 < ps \<Longrightarrow> paged cap ps (offs + ps) fs \<Longrightarrow>
     paged cap ps offs (page_opts cap ps ts offs # fs)"
  by (simp add: page_opts_def)

lemma sync_loop_fetches:
  assumes "sync_loop findAll remote cap ps bsz ts cb offs w = Some (res, w')"
    and "0 < ps"
  shows "\<exists>fs. fetches (trace w') = fetches (trace w) @ fs \<and> paged cap ps offs fs"
  using assms
proof (induction rule: sync_loop_induct_Some)
  case (finished ts cb offs w)
  then show ?case by simp
next
  case (exhausted ts cb offs w res w')
  from send_remaining_fetches[OF exhausted(3)] exhausted(1,4)
  show ?case by (intro exI[of _ "[page_opts cap ps ts offs]"]) (simp add: page_opts_def)
next
  case (failed ts cb offs w err w')
  from for_records_fetches[OF failed(3)] failed(1,4)
  show ?case by (intro exI[of _ "[page_opts cap ps ts offs]"]) (simp add: page_opts_def)
next
  case (capped ts cb offs w ts2 cb2 w2 res w')
  from for_records_fetches[OF capped(3)] send_remaining_fetches[OF capped(5)] capped(1,6)
  show ?case by (intro exI[of _ "[page_opts cap ps ts offs]"]) (simp add: page_opts_def)
next
  case (continue ts cb offs w ts2 cb2 w2 res w')
  from continue(6)[OF continue(7)] obtain fs where
    fs: "fetches (trace w') = fetches (trace w2) @ fs" "paged cap ps (offs + ps) fs" by blast
  from for_records_fetches[OF continue(3)] fs(1)
  have "fetches (trace w') = fetches (trace w) @ page_opts cap ps ts offs # fs" by simp
  with paged_page_opts[OF continue(1,7) fs(2)] show ?case by blast
qed

lemma table_findAll_unordered:
  "order opts = None \<Longrightarrow> table_findAll tbl opts = take (limit opts) (drop (offset opts) tbl)"
  by (simp add: table_findAll_def)

lemma subseq_take_drop_step:
  assumes "subseq ys (drop (offs + ps) tbl)" and "l \<le> ps"
  shows "subseq (take l (drop offs tbl) @ ys) (drop offs tbl)"
proof -
  let ?X = "drop offs tbl"
  have "drop (offs + ps) tbl = drop (ps - l) (drop l ?X)"
    using assms(2) by (simp add: add.commute)
  then have "subseq ys (drop l ?X)"
    using assms(1) by (metis subseq_drop_many append_take_drop_id)
  then have "subseq (take l ?X @ ys) (take l ?X @ drop l ?X)"
    by (intro list_emb_append_mono) simp_all
  then show ?thesis by (simp only: append_take_drop_id)
qed

lemma paged_subseq:
  "paged cap ps offs fs \<Longrightarrow> subseq (concat (map (table_findAll tbl) fs)) (drop offs tbl)"
proof (induction fs arbitrary: offs)
  case Nil
  then show ?case by simp
next
  case (Cons opts fs)
  then have o: "offset opts = offs" "limit opts \<le> ps" "order opts = None"
    and rest: "paged cap ps (offs + ps) fs" by simp_all
  from subseq_take_drop_step[OF Cons.IH[OF rest] o(2)] o(1,3)
  show ?case by (simp add: table_findAll_unordered)
qed

lemma sorted_page:
  "sorted (map row_id tbl) \<Longrightarrow> sorted (map row_id (table_findAll tbl opts))"
  by (cases "order opts")
     (auto simp: table_findAll_def take_map[symmetric] drop_map[symmetric]
         sorted_wrt_take sorted_wrt_drop simp del: take_map drop_map split: order_by.splits)

lemma subseq_sorted: "subseq xs ys \<Longrightarrow> sorted ys \<Longrightarrow> sorted xs"
  by (auto simp: subseq_conv_nths sorted_nths)

lemma paged_nth:
  "paged cap ps offs fs \<Longrightarrow> i < length fs \<Longrightarrow>
     offset (fs ! i) = offs + i * ps \<and> 0 < limit (fs ! i) \<and> limit (fs ! i) \<le> ps \<and>
     limit (fs ! i) \<le> cap \<and> order (fs ! i) = None"
proof (induction fs arbitrary: offs i)
  case Nil
  then show ?case by simp
next
  case (Cons opts fs)
  show ?case
  proof (cases i)
    case 0
    with Cons.prems show ?thesis by simp
  next
    case (Suc j)
    with Cons.prems have "paged cap ps (offs + ps) fs" "j < length fs" by simp_all
    from Cons.IH[OF this] Suc show ?thesis by (simp add: add.assoc)
  qed
qed

subsection \<open>A run returns unless the remote throttles for ever\<close>

lemma sendBatch_returns:
  assumes "\<exists>k. remote (calls w + k) (upsert_inputs b) \<noteq> throttled"
  shows "\<exists>res w'. sendBatchToHubSpot remote b w = Some (res, w')"
proof -
  define k where "k = (LEAST k. remote (calls w + k) (upsert_inputs b) \<noteq> throttled)"
  from assms have final: "remote (calls w + k) (upsert_inputs b) \<noteq> throttled"
    unfolding k_def by (rule LeastI_ex)
  have "\<forall>j<k. remote (calls w + j) (upsert_inputs b) = throttled"
    unfolding k_def using not_less_Least by blast
  with final
    sendBatch_after_throttles[of k remote w b "remote (calls w + k) (upsert_inputs b)"]
  show ?thesis by blast
qed

lemma send_remaining_returns:
  assumes "\<forall>n inputs. \<exists>k. remote (n + k) inputs \<noteq> throttled"
  shows "\<exists>res w'. send_remaining remote ts cb w = Some (res, w')"
proof -
  from assms sendBatch_returns[of remote w cb] obtain r1 w1 where
    "sendBatchToHubSpot remote cb w = Some (r1, w1)" by blast
  then show ?thesis by (cases r1) (auto simp: send_remaining_def)
qed

lemma for_records_returns:
  assumes "\<forall>n inputs. \<exists>k. remote (n + k) inputs \<noteq> throttled"
  shows "\<exists>res w'. for_records remote cap bsz rs ts cb w = Some (res, w')"
proof (induction rs arbitrary: ts cb w)
  case Nil
  show ?case by simp
next
  case (Cons r rs)
  let ?cb1 = "cb @ [formatContactForHubSpot r]"
  from assms sendBatch_returns[of remote w ?cb1] obtain r1 w1 where
    send: "sendBatchToHubSpot remote ?cb1 w = Some (r1, w1)" by blast
  show ?case
  proof (cases r1)
    case (Inl err)
    with send Cons.IH[of ts ?cb1 w] show ?thesis by (auto simp: Let_def)
  next
    case (Inr u)
    with send Cons.IH[of ts ?cb1 w] Cons.IH[of "ts + length ?cb1" "[]" w1]
    show ?thesis by (auto simp: Let_def)
  qed
qed

lemma sync_loop_returns:
  assumes "\<forall>n inputs. \<exists>k. remote (n + k) inputs \<noteq> throttled"
  shows "\<exists>res w'. sync_loop findAll remote cap ps bsz ts cb offs w = Some (res, w')"
  using assms
proof (induction findAll remote cap ps bsz ts cb offs w rule: sync_loop.induct)
  case (1 findAll remote cap ps bsz ts cb offs w)
  let ?opts = "page_opts cap ps ts offs"
  let ?w1 = "fetched ?opts w"
  show ?case
  proof (cases "ts < cap")
    case False
    then show ?thesis by (simp add: sync_loop_unfold)
  next
    case lt: True
    show ?thesis
    proof (cases "findAll ?opts = []")
      case True
      with lt send_remaining_returns[OF "1.prems", of ts cb ?w1] show ?thesis
        by (simp add: sync_loop_unfold)
    next
      case nonempty: False
      from for_records_returns[OF "1.prems", of cap bsz "findAll ?opts" ts cb ?w1]
      obtain r2 w2 where
        fr: "for_records remote cap bsz (findAll ?opts) ts cb ?w1 = Some (r2, w2)" by blast
      show ?thesis
      proof (cases r2)
        case (Inl err)
        with lt nonempty fr show ?thesis by (simp add: sync_loop_unfold)
      next
        case (Inr p)
        obtain ts2 cb2 where p: "p = (ts2, cb2)" by (cases p)
        show ?thesis
        proof (cases "cap \<le> ts2")
          case True
          with lt nonempty fr Inr p send_remaining_returns[OF "1.prems", of ts2 cb2 w2]
          show ?thesis by (simp add: sync_loop_unfold)
        next
          case False
          have "\<exists>res w'. sync_loop findAll remote cap ps bsz ts2 cb2 (offs + ps) w2
                  = Some (res, w')"
          proof (rule "1.IH"[OF lt refl refl refl refl refl _ _ refl _ refl _ "1.prems"])
            show "length (findAll \<lparr>limit = min ps (cap - ts), offset = offs, order = None,
                     raw = True, logging = False\<rparr>) \<noteq> 0"
              using nonempty by (simp add: page_opts_def)
            show "for_records remote cap bsz
                    (findAll \<lparr>limit = min ps (cap - ts), offset = offs, order = None,
                       raw = True, logging = False\<rparr>) ts cb
                    (w\<lparr>trace := trace w @ [FindAll \<lparr>limit = min ps (cap - ts), offset = offs,
                       order = None, raw = True, logging = False\<rparr>]\<rparr>) =
                  Some (Inr (ts2, cb2), w2)"
              using fr Inr p by (simp add: page_opts_def fetched_def)
            show "Inr (ts2, cb2) = Inr (ts2, cb2)" by simp
            show "\<not> cap \<le> ts2" by (rule False)
          qed
          with lt nonempty fr Inr p False show ?thesis by (simp add: sync_loop_unfold)
        qed
      qed
    qed
  qed
qed

lemma sync_returns:
  assumes "\<forall>n inputs. \<exists>k. remote (n + k) inputs \<noteq> throttled"
  shows "\<exists>res w. sync findAll remote cap = Some (res, w)"
  unfolding sync_def using assms by (rule sync_loop_returns)

subsection \<open>Filling a batch\<close>

lemma sendBatch_always_ok:
  "sendBatchToHubSpot always_ok b w =
     Some (Inr (), w\<lparr>calls := calls w + 1,
                     trace := trace w @ [Post (upsert_inputs b) (Resolved 200)]\<rparr>)"
  by (subst sendBatchToHubSpot.simps) (simp add: always_ok_def)

lemma for_records_fill:
  "ts < cap \<Longrightarrow> length cb + length rs < bsz \<Longrightarrow>
     for_records remote cap bsz rs ts cb w =
       Some (Inr (ts, cb @ map formatContactForHubSpot rs), w)"
  by (induction rs arbitrary: cb) (simp_all add: Let_def)

lemma for_records_send:
  "ts < cap \<Longrightarrow> rs \<noteq> [] \<Longrightarrow> length cb + length rs = bsz \<Longrightarrow>
   sendBatchToHubSpot remote (cb @ map formatContactForHubSpot rs) w = Some (Inr (), w1) \<Longrightarrow>
     for_records remote cap bsz rs ts cb w = Some (Inr (ts + bsz, []), w1)"
proof (induction rs arbitrary: cb)
  case Nil
  then show ?case by simp
next
  case (Cons r rs)
  show ?case
  proof (cases "rs = []")
    case True
    with Cons.prems show ?thesis by (simp add: Let_def)
  next
    case False
    with Cons.prems have "length (cb @ [formatContactForHubSpot r]) + length rs = bsz"
      "sendBatchToHubSpot remote ((cb @ [formatContactForHubSpot r])
         @ map formatContactForHubSpot rs) w = Some (Inr (), w1)"
      by simp_all
    from Cons.IH[OF Cons.prems(1) False this] False Cons.prems(1,3)
    show ?thesis by (cases rs) (simp_all add: Let_def)
  qed
qed

lemma for_records_append:
  "for_records remote cap bsz (xs @ ys) ts cb w =
     (case for_records remote cap bsz xs ts cb w of
        None \<Rightarrow> None
      | Some (Inl err, w') \<Rightarrow> Some (Inl err, w')
      | Some (Inr (ts', cb'), w') \<Rightarrow> for_records remote cap bsz ys ts' cb' w')"
proof (induction xs arbitrary: ts cb w)
  case Nil
  show ?case by simp
next
  case (Cons x xs)
  show ?case
  proof (cases "cap \<le> ts")
    case True
    then show ?thesis by (cases ys) simp_all
  next
    case False
    then show ?thesis
      by (auto simp: Let_def Cons.IH split: option.splits sum.splits prod.splits)
  qed
qed

lemma for_records_send_fails:
  "ts < cap \<Longrightarrow> rs \<noteq> [] \<Longrightarrow> length cb + length rs = bsz \<Longrightarrow>
   sendBatchToHubSpot remote (cb @ map formatContactForHubSpot rs) w = Some (Inl err, w1) \<Longrightarrow>
     for_records remote cap bsz rs ts cb w = Some (Inl err, w1)"
proof (induction rs arbitrary: cb)
  case Nil
  then show ?case by simp
next
  case (Cons r rs)
  show ?case
  proof (cases "rs = []")
    case True
    with Cons.prems show ?thesis by (simp add: Let_def)
  next
    case False
    with Cons.prems have "length (cb @ [formatContactForHubSpot r]) + length rs = bsz"
      "sendBatchToHubSpot remote ((cb @ [formatContactForHubSpot r])
         @ map formatContactForHubSpot rs) w = Some (Inl err, w1)"
      by simp_all
    from Cons.IH[OF Cons.prems(1) False this] False Cons.prems(1,3)
    show ?thesis by (cases rs) (simp_all add: Let_def)
  qed
qed

subsection \<open>Records delivered, and what the loop guarantees about the cap\<close>

text \<open>
  \<open>totalSynced\<close> is the number of records delivered so far. A run delivers fewer than
  cap + 100 records, and no more than the cap when the cap is a multiple of 100.
\<close>

lemma delivered_total_append [simp]:
  "delivered_total (xs @ ys) = delivered_total xs + delivered_total ys"
  by (simp add: delivered_total_def)

lemma delivered_throttled_rounds [simp]: "delivered (throttled_rounds k inputs) = []"
  by (induction k) (simp_all add: throttled_def)

lemma sendBatch_delivered:
  assumes "sendBatchToHubSpot remote b w = Some (res, w')"
  shows "delivered_total (trace w') =
           delivered_total (trace w) + (case res of Inr u \<Rightarrow> length b | Inl err \<Rightarrow> 0)"
proof -
  from sendBatch_Some[OF assms] obtain k r where
    r: "res = outcome r"
    and tr: "trace w' =
      trace w @ throttled_rounds k (upsert_inputs b) @ [Post (upsert_inputs b) r]"
    by blast
  show ?thesis
    unfolding tr r
    by (cases r) (simp_all add: delivered_total_def outcome_def)
qed

lemma send_remaining_delivered:
  assumes "send_remaining remote ts cb w = Some (res, w')"
    and "delivered_total (trace w) = ts"
  shows "case res of
           Inr n \<Rightarrow> n = ts + length cb \<and> delivered_total (trace w') = n
         | Inl err \<Rightarrow> delivered_total (trace w') = ts"
proof (cases "length cb > 0")
  case True
  with assms(1) obtain r1 where
    send: "sendBatchToHubSpot remote cb w = Some (r1, w')"
    and res: "res = (case r1 of Inl err \<Rightarrow> Inl err | Inr u \<Rightarrow> Inr (ts + length cb))"
    by (auto simp: send_remaining_def split: option.splits sum.splits)
  from sendBatch_delivered[OF send] assms(2) res show ?thesis
    by (cases r1) simp_all
next
  case False
  with assms show ?thesis by (auto simp: send_remaining_def)
qed

lemma for_records_delivered:
  "for_records remote cap bsz rs ts cb w = Some (res, w') \<Longrightarrow>
   delivered_total (trace w) = ts \<Longrightarrow> length cb < bsz \<Longrightarrow> ts < cap + bsz \<Longrightarrow>
   (cap \<le> ts \<longrightarrow> cb = []) \<Longrightarrow>
     (case res of
        Inr (ts', cb') \<Rightarrow>
          delivered_total (trace w') = ts' \<and> length cb' < bsz \<and> ts' < cap + bsz \<and>
          (cap \<le> ts' \<longrightarrow> cb' = []) \<and> (bsz dvd ts \<longrightarrow> bsz dvd ts')
      | Inl err \<Rightarrow> delivered_total (trace w') < cap)"
proof (induction rs arbitrary: ts cb w)
  case Nil
  then show ?case by auto
next
  case (Cons r rs)
  show ?case
  proof (cases "cap \<le> ts")
    case True
    with Cons.prems show ?thesis by auto
  next
    case notcap: False
    let ?cb1 = "cb @ [formatContactForHubSpot r]"
    show ?thesis
    proof (cases "bsz \<le> length ?cb1")
      case True
      with Cons.prems(3) have len: "length ?cb1 = bsz" by simp
      from notcap True Cons.prems(1) obtain r1 w1 where
        send: "sendBatchToHubSpot remote ?cb1 w = Some (r1, w1)"
        by (auto simp: Let_def split: option.splits)
      note d1 = sendBatch_delivered[OF send]
      show ?thesis
      proof (cases r1)
        case (Inl err)
        with notcap True send Cons.prems(1) have "res = Inl err" "w' = w1"
          by (auto simp: Let_def)
        with d1 Inl Cons.prems(2) notcap show ?thesis by simp
      next
        case (Inr u)
        with notcap True send Cons.prems(1) have run:
          "for_records remote cap bsz rs (ts + length ?cb1) [] w1 = Some (res, w')"
          by (auto simp: Let_def)
        from d1 Inr Cons.prems(2) have d: "delivered_total (trace w1) = ts + length ?cb1"
          by simp
        from Cons.IH[OF run d] len notcap Cons.prems(3)
        show ?thesis by (auto split: sum.splits prod.splits)
      qed
    next
      case False
      with notcap Cons.prems(1) have run:
        "for_records remote cap bsz rs ts ?cb1 w = Some (res, w')"
        by (simp add: Let_def)
      from Cons.IH[OF run Cons.prems(2)] False notcap Cons.prems(4)
      show ?thesis by simp
    qed
  qed
qed

lemma multiple_below:
  fixes ts cap bsz :: nat
  assumes "bsz dvd cap" "bsz dvd ts" "ts < cap + bsz"
  shows "ts \<le> cap"
proof -
  from assms(1,2) obtain a b where "cap = bsz * a" "ts = bsz * b" by (auto simp: dvd_def)
  with assms(3) have "bsz * b < bsz * (a + 1)" by simp
  then have "b < a + 1" using mult_less_cancel1[of bsz b "a + 1"] by blast
  then show ?thesis using \<open>cap = bsz * a\<close> \<open>ts = bsz * b\<close> by simp
qed

lemma multiple_step:
  fixes ts cap bsz :: nat
  assumes "bsz dvd cap" "bsz dvd ts" "ts < cap"
  shows "ts + bsz \<le> cap"
proof -
  from assms(1,2) obtain a b where ab: "cap = bsz * a" "ts = bsz * b" by (auto simp: dvd_def)
  with assms(3) have "b < a" by simp
  then have "b + 1 \<le> a" by simp
  then have "bsz * (b + 1) \<le> bsz * a" by (rule mult_le_mono2)
  with ab show ?thesis by simp
qed

lemma sync_loop_delivered:
  assumes "sync_loop findAll remote cap ps bsz ts cb offs w = Some (res, w')"
    and "delivered_total (trace w) = ts" and "length cb < bsz" and "ts < cap + bsz"
    and "cap \<le> ts \<longrightarrow> cb = []"
  shows "delivered_total (trace w') < cap + bsz \<and>
         (\<forall>n. res = Inr n \<longrightarrow> n = delivered_total (trace w')) \<and>
         (bsz dvd cap \<and> bsz dvd ts \<longrightarrow> delivered_total (trace w') \<le> cap)"
  using assms
proof (induction rule: sync_loop_induct_Some)
  case (finished ts cb offs w)
  then show ?case using multiple_below[of bsz cap ts] by auto
next
  case (exhausted ts cb offs w res w')
  from exhausted(4) have d: "delivered_total (trace (fetched (page_opts cap ps ts offs) w)) = ts"
    by (simp add: delivered_total_def)
  from send_remaining_delivered[OF exhausted(3) d] exhausted(1,5)
    multiple_step[of bsz cap ts]
  show ?case by (cases res) auto
next
  case (failed ts cb offs w err w')
  from failed(4) have d: "delivered_total (trace (fetched (page_opts cap ps ts offs) w)) = ts"
    by (simp add: delivered_total_def)
  from for_records_delivered[OF failed(3) d failed(5,6,7)] show ?case by simp
next
  case (capped ts cb offs w ts2 cb2 w2 res w')
  from capped(6) have d: "delivered_total (trace (fetched (page_opts cap ps ts offs) w)) = ts"
    by (simp add: delivered_total_def)
  from for_records_delivered[OF capped(3) d capped(7,8,9)] capped(4) have
    f: "delivered_total (trace w2) = ts2" "ts2 < cap + bsz" "cb2 = []"
      "bsz dvd ts \<longrightarrow> bsz dvd ts2" by simp_all
  from send_remaining_delivered[OF capped(5) f(1)] f multiple_below[of bsz cap ts2]
  show ?case by (cases res) auto
next
  case (continue ts cb offs w ts2 cb2 w2 res w')
  from continue(7) have d: "delivered_total (trace (fetched (page_opts cap ps ts offs) w)) = ts"
    by (simp add: delivered_total_def)
  from for_records_delivered[OF continue(3) d continue(8,9,10)] have
    f: "delivered_total (trace w2) = ts2" "length cb2 < bsz" "ts2 < cap + bsz"
      "cap \<le> ts2 \<longrightarrow> cb2 = []" "bsz dvd ts \<longrightarrow> bsz dvd ts2" by simp_all
  from continue(6)[OF f(1-4)] f(5) show ?case by auto
qed

lemma sync_delivered_bound:
  assumes "sync findAll remote cap = Some (res, w)"
  shows "delivered_total (trace w) < cap + 100 \<and>
         (\<forall>n. res = Inr n \<longrightarrow> n = delivered_total (trace w)) \<and>
         (100 dvd cap \<longrightarrow> delivered_total (trace w) \<le> cap)"
  using sync_loop_delivered[of findAll remote cap 5000 100 0 "[]" 0 start res w] assms
  by (simp add: sync_def start_def delivered_total_def)

subsection \<open>The limit of a page fetch\<close>

lemma delivered_total_Cons [simp]:
  "delivered_total (FindAll opts # evs) = delivered_total evs"
  "delivered_total (Post inputs (Resolved status) # evs) = length inputs + delivered_total evs"
  "delivered_total (Post inputs (Rejected st) # evs) = delivered_total evs"
  "delivered_total (Wait n # evs) = delivered_total evs"
  "delivered_total [] = 0"
  by (simp_all add: delivered_total_def)

lemma fetch_limits_append:
  "fetch_limits cap ps d (xs @ ys) =
     (fetch_limits cap ps d xs \<and> fetch_limits cap ps (d + delivered_total xs) ys)"
  by (induction cap ps d xs rule: fetch_limits.induct) (auto simp: add.assoc)

lemma fetch_limits_no_fetch: "fetches xs = [] \<Longrightarrow> fetch_limits cap ps d xs"
  by (induction cap ps d xs rule: fetch_limits.induct) auto

lemma fetch_limits_at:
  "fetch_limits cap ps d (pre @ FindAll opts # post) \<Longrightarrow>
     d + delivered_total pre < cap \<and> limit opts = min ps (cap - (d + delivered_total pre))"
  by (simp add: fetch_limits_append)

lemma for_records_delivered_rel:
  "for_records remote cap bsz rs ts cb w = Some (Inr (ts', cb'), w') \<Longrightarrow>
     delivered_total (trace w') + ts = delivered_total (trace w) + ts'"
proof (induction rs arbitrary: ts cb w)
  case Nil
  then show ?case by simp
next
  case (Cons r rs)
  show ?case
  proof (cases "cap \<le> ts")
    case True
    with Cons.prems show ?thesis by simp
  next
    case notcap: False
    let ?cb1 = "cb @ [formatContactForHubSpot r]"
    show ?thesis
    proof (cases "bsz \<le> length ?cb1")
      case True
      with notcap Cons.prems obtain w1 where
        send: "sendBatchToHubSpot remote ?cb1 w = Some (Inr (), w1)"
        and run: "for_records remote cap bsz rs (ts + length ?cb1) [] w1 =
                    Some (Inr (ts', cb'), w')"
        by (auto simp: Let_def split: option.splits sum.splits)
      from sendBatch_delivered[OF send] Cons.IH[OF run] show ?thesis by simp
    next
      case False
      with notcap Cons.prems have
        "for_records remote cap bsz rs ts ?cb1 w = Some (Inr (ts', cb'), w')"
        by (simp add: Let_def)
      from Cons.IH[OF this] show ?thesis .
    qed
  qed
qed

lemma quiet_extension:
  assumes "trace w' = trace w @ evs" and "fetches (trace w') = fetches (trace w)"
  shows "fetches evs = []"
  using assms by simp

lemma sync_loop_fetch_limits:
  assumes "sync_loop findAll remote cap ps bsz ts cb offs w = Some (res, w')"
  shows "\<exists>evs. trace w' = trace w @ evs \<and> fetch_limits cap ps ts evs"
  using assms
proof (induction rule: sync_loop_induct_Some)
  case (finished ts cb offs w)
  then show ?case by simp
next
  case (exhausted ts cb offs w res w')
  let ?opts = "page_opts cap ps ts offs"
  from send_remaining_halts[OF exhausted(3)] obtain evs where
    evs: "trace w' = trace (fetched ?opts w) @ evs" by blast
  from quiet_extension[OF evs send_remaining_fetches[OF exhausted(3)]]
  have "fetch_limits cap ps ts (FindAll ?opts # evs)"
    using exhausted(1) by (simp add: fetch_limits_no_fetch page_opts_def)
  with evs show ?case by (intro exI[of _ "FindAll ?opts # evs"]) simp
next
  case (failed ts cb offs w err w')
  let ?opts = "page_opts cap ps ts offs"
  from for_records_halts[OF failed(3)] obtain evs where
    evs: "trace w' = trace (fetched ?opts w) @ evs" by blast
  from quiet_extension[OF evs for_records_fetches[OF failed(3)]]
  have "fetch_limits cap ps ts (FindAll ?opts # evs)"
    using failed(1) by (simp add: fetch_limits_no_fetch page_opts_def)
  with evs show ?case by (intro exI[of _ "FindAll ?opts # evs"]) simp
next
  case (capped ts cb offs w ts2 cb2 w2 res w')
  let ?opts = "page_opts cap ps ts offs"
  from for_records_halts[OF capped(3)] obtain evs1 where
    evs1: "trace w2 = trace (fetched ?opts w) @ evs1" by blast
  from send_remaining_halts[OF capped(5)] obtain evs2 where
    evs2: "trace w' = trace w2 @ evs2" by blast
  from quiet_extension[OF evs1 for_records_fetches[OF capped(3)]]
    quiet_extension[OF evs2 send_remaining_fetches[OF capped(5)]]
  have "fetch_limits cap ps ts (FindAll ?opts # evs1 @ evs2)"
    using capped(1) by (simp add: fetch_limits_no_fetch page_opts_def)
  with evs1 evs2 show ?case by (intro exI[of _ "FindAll ?opts # evs1 @ evs2"]) simp
next
  case (continue ts cb offs w ts2 cb2 w2 res w')
  let ?opts = "page_opts cap ps ts offs"
  from for_records_halts[OF continue(3)] obtain evs1 where
    evs1: "trace w2 = trace (fetched ?opts w) @ evs1" by blast
  from continue(6) obtain evs2 where
    evs2: "trace w' = trace w2 @ evs2" "fetch_limits cap ps ts2 evs2" by blast
  from for_records_delivered_rel[OF continue(3)] evs1
  have ts2: "ts2 = ts + delivered_total evs1"
    by (simp add: delivered_total_def)
  from quiet_extension[OF evs1 for_records_fetches[OF continue(3)]]
  have "fetch_limits cap ps ts evs1" by (rule fetch_limits_no_fetch)
  with evs2(2) ts2 continue(1)
  have "fetch_limits cap ps ts (FindAll ?opts # evs1 @ evs2)"
    by (simp add: fetch_limits_append page_opts_def)
  with evs1 evs2(1) show ?case by (intro exI[of _ "FindAll ?opts # evs1 @ evs2"]) simp
qed

lemma table_findAll_ordered:
  "order opts = Some IdAscending \<Longrightarrow> sorted (map row_id (table_findAll tbl opts))"
  by (simp add: table_findAll_def take_map[symmetric] drop_map[symmetric]
      sorted_wrt_take sorted_wrt_drop del: take_map drop_map)

lemma sync_cap_100:
  assumes "100 \<le> length tbl"
  shows "sync (table_findAll tbl) always_ok 100 =
           Some (Inr 100,
             \<lparr>calls = 1,
              trace = [FindAll (page_opts 100 5000 0 0),
                       Post (upsert_inputs (map formatContactForHubSpot (take 100 tbl)))
                         (Resolved 200)]\<rparr>)"
proof -
  have p1: "table_findAll tbl (page_opts 100 5000 0 0) = take 100 tbl"
    by (simp add: table_findAll_def page_opts_def)
  have ne: "take 100 tbl \<noteq> []" using assms by auto
  have page: "\<And>w. for_records always_ok 100 100 (take 100 tbl) 0 [] w =
          Some (Inr (0 + 100, []),
                w\<lparr>calls := calls w + 1,
                  trace := trace w @
                    [Post (upsert_inputs ([] @ map formatContactForHubSpot (take 100 tbl)))
                       (Resolved 200)]\<rparr>)"
    using assms ne by (intro for_records_send) (auto simp: sendBatch_always_ok)
  have tne: "tbl \<noteq> []" using assms by auto
  show ?thesis
    unfolding sync_def
    by (subst sync_loop_unfold)
       (simp add: p1 tne page send_remaining_def start_def fetched_def)
qed

subsection \<open>Two runs in closed form\<close>

lemma sync_short_table:
  assumes "length tbl = 100"
  shows "sync (table_findAll tbl) always_ok 200 =
           Some (Inr 100,
             \<lparr>calls = 1,
              trace = [FindAll (page_opts 200 5000 0 0),
                       Post (upsert_inputs (map formatContactForHubSpot tbl)) (Resolved 200),
                       FindAll (page_opts 200 5000 100 5000)]\<rparr>)"
proof -
  have p1: "table_findAll tbl (page_opts 200 5000 0 0) = tbl"
    using assms by (simp add: table_findAll_def page_opts_def)
  have p2: "table_findAll tbl (page_opts 200 5000 100 5000) = []"
    using assms by (simp add: table_findAll_def page_opts_def)
  have tne: "tbl \<noteq> []" using assms by auto
  have page: "\<And>w. for_records always_ok 200 100 tbl 0 [] w =
          Some (Inr (0 + 100, []),
                w\<lparr>calls := calls w + 1,
                  trace := trace w @
                    [Post (upsert_inputs ([] @ map formatContactForHubSpot tbl))
                       (Resolved 200)]\<rparr>)"
    using assms tne by (intro for_records_send) (auto simp: sendBatch_always_ok)
  show ?thesis
    unfolding sync_def
    apply (subst sync_loop_unfold)
    apply (simp add: p1 tne page)
    apply (subst sync_loop_unfold)
    apply (simp add: p2 send_remaining_def start_def fetched_def)
    done
qed

lemma sync_first_call_unauthorized:
  assumes "100 \<le> length tbl" and "100 \<le> cap" and "cap \<le> 5000"
    and "remote 0 (upsert_inputs (map formatContactForHubSpot (take 100 (take cap tbl))))
           = unauthorized"
  shows "sync (table_findAll tbl) remote cap =
           Some (Inl auth_error,
             \<lparr>calls = 1,
              trace = [FindAll (page_opts cap 5000 0 0)] @
                      Post (upsert_inputs (map formatContactForHubSpot (take 100 tbl)))
                        unauthorized # []\<rparr>)"
proof -
  let ?w1 = "\<lparr>calls = 0, trace = [FindAll (page_opts cap 5000 0 0)]\<rparr>"
  have p1: "table_findAll tbl (page_opts cap 5000 0 0) = take cap tbl"
    using assms(3) by (simp add: table_findAll_def page_opts_def)
    have t100: "take 100 (take cap tbl) = take 100 tbl" using assms(2) by (simp add: min_def)
  have split: "take cap tbl = take 100 tbl @ drop 100 (take cap tbl)"
    using append_take_drop_id[of 100 "take cap tbl"] t100 by simp
  have send: "sendBatchToHubSpot remote ([] @ map formatContactForHubSpot (take 100 tbl)) ?w1 =
          Some (Inl auth_error,
                ?w1\<lparr>calls := calls ?w1 + 1,
                  trace := trace ?w1 @
                    [Post (upsert_inputs ([] @ map formatContactForHubSpot (take 100 tbl)))
                       unauthorized]\<rparr>)"
    using sendBatch_step_final[of remote ?w1 "[] @ map formatContactForHubSpot (take 100 tbl)"
        unauthorized] assms(4) t100
    by (simp add: unauthorized_def throttled_def outcome_def)
  have first: "for_records remote cap 100 (take 100 tbl) 0 [] ?w1 =
          Some (Inl auth_error,
                ?w1\<lparr>calls := calls ?w1 + 1,
                  trace := trace ?w1 @
                    [Post (upsert_inputs ([] @ map formatContactForHubSpot (take 100 tbl)))
                       unauthorized]\<rparr>)"
    using assms(1,2) by (intro for_records_send_fails[OF _ _ _ send]) auto
  have page: "for_records remote cap 100 (take cap tbl) 0 [] ?w1 =
          Some (Inl auth_error,
                ?w1\<lparr>calls := calls ?w1 + 1,
                  trace := trace ?w1 @
                    [Post (upsert_inputs ([] @ map formatContactForHubSpot (take 100 tbl)))
                       unauthorized]\<rparr>)"
    by (subst split) (simp add: for_records_append first)
  have tne: "tbl \<noteq> []" using assms(1) by auto
  show ?thesis
    unfolding sync_def
    by (subst sync_loop_unfold)
       (use assms(2) tne in \<open>simp add: p1 page start_def fetched_def\<close>)
qed

section \<open>Egress: the claims about outgoing calls\<close>

text \<open>
  C7. Whatever the store returns, whatever the remote answers and whatever the page
  size, every outgoing call of a run that returns (with a count or with an error)
  carries at least 1 and at most 100 entries. \<open>sync\<close> is the instance with page size 5000.
\<close>

theorem C7_batch_size:
  "sync_loop findAll remote cap pageSize 100 0 [] 0 start = Some (res, w) \<Longrightarrow>
   inputs \<in> set (posts (trace w)) \<Longrightarrow> 1 \<le> length inputs \<and> length inputs \<le> 100"
  using sync_loop_posts[of findAll remote cap pageSize 100 0 "[]" 0 start res w]
  by (auto simp: start_def)

theorem C7_witness:
  "sync (table_findAll [row_ann]) always_ok 3 =
     Some (Inr 1,
       \<lparr>calls = 1,
        trace = [FindAll (page_opts 3 5000 0 0), FindAll (page_opts 3 5000 0 5000),
                 Post (upsert_inputs [formatContactForHubSpot row_ann]) (Resolved 200)]\<rparr>) \<and>
   upsert_inputs [formatContactForHubSpot row_ann] \<in>
     set (posts [FindAll (page_opts 3 5000 0 0), FindAll (page_opts 3 5000 0 5000),
                 Post (upsert_inputs [formatContactForHubSpot row_ann]) (Resolved 200)]) \<and>
   1 \<le> length (upsert_inputs [formatContactForHubSpot row_ann]) \<and>
   length (upsert_inputs [formatContactForHubSpot row_ann]) \<le> 100"
proof -
  let ?w = "\<lparr>calls = 1,
        trace = [FindAll (page_opts 3 5000 0 0), FindAll (page_opts 3 5000 0 5000),
                 Post (upsert_inputs [formatContactForHubSpot row_ann]) (Resolved 200)]\<rparr>"
  have run: "sync_loop (table_findAll [row_ann]) always_ok 3 5000 100 0 [] 0 start =
               Some (Inr 1, ?w)"
    by (simp add: sync_loop_unfold page_opts_def table_findAll_def send_remaining_def
        sendBatchToHubSpot.simps always_ok_def start_def Let_def fetched_def)
  have mem: "upsert_inputs [formatContactForHubSpot row_ann] \<in> set (posts (trace ?w))"
    by simp
  from C7_batch_size[OF run mem] run mem show ?thesis
    by (simp add: sync_def)
qed

text \<open>
  C8. A call answered with status 429 is followed by a wait of 1000 ms and a call with
  the same payload. When the remote throttles \<open>k\<close> calls in a row and accepts the next,
  the send returns normally after exactly \<open>k\<close> wait-and-retry rounds and one accepted
  call; with \<open>k = 2\<close> this is the sequence throttled, throttled, success.
\<close>

theorem C8_throttle_retry:
  "(\<forall>j<k. remote (calls w + j) (upsert_inputs b) = throttled) \<Longrightarrow>
   remote (calls w + k) (upsert_inputs b) = Resolved status \<Longrightarrow>
   sendBatchToHubSpot remote b w =
     Some (Inr (),
           w\<lparr>calls := calls w + k + 1,
             trace := trace w @ throttled_rounds k (upsert_inputs b)
                        @ [Post (upsert_inputs b) (Resolved status)]\<rparr>)"
  using sendBatch_after_throttles[of k remote w b "Resolved status"]
  by (simp add: outcome_def throttled_def)

theorem C8_scenario:
  "scripted [throttled, throttled, Resolved 200] (calls start + 0)
     (upsert_inputs [formatContactForHubSpot row_ann]) = throttled \<and>
   scripted [throttled, throttled, Resolved 200] (calls start + 1)
     (upsert_inputs [formatContactForHubSpot row_ann]) = throttled \<and>
   scripted [throttled, throttled, Resolved 200] (calls start + 2)
     (upsert_inputs [formatContactForHubSpot row_ann]) = Resolved 200 \<and>
   sendBatchToHubSpot (scripted [throttled, throttled, Resolved 200])
       [formatContactForHubSpot row_ann] start =
     Some (Inr (),
       \<lparr>calls = 3,
        trace = [Post (upsert_inputs [formatContactForHubSpot row_ann]) throttled, Wait 1000,
                 Post (upsert_inputs [formatContactForHubSpot row_ann]) throttled, Wait 1000,
                 Post (upsert_inputs [formatContactForHubSpot row_ann]) (Resolved 200)]\<rparr>) \<and>
   delivered [Post (upsert_inputs [formatContactForHubSpot row_ann]) throttled, Wait 1000,
              Post (upsert_inputs [formatContactForHubSpot row_ann]) throttled, Wait 1000,
              Post (upsert_inputs [formatContactForHubSpot row_ann]) (Resolved 200)] =
     [upsert_inputs [formatContactForHubSpot row_ann]]"
proof -
  have h1: "\<forall>j<2. scripted [throttled, throttled, Resolved 200] (calls start + j)
             (upsert_inputs [formatContactForHubSpot row_ann]) = throttled"
    by (simp add: scripted_def start_def less_Suc_eq numeral_2_eq_2)
  have h2: "scripted [throttled, throttled, Resolved 200] (calls start + 2)
     (upsert_inputs [formatContactForHubSpot row_ann]) = Resolved 200"
    by (simp add: scripted_def start_def)
  show ?thesis
    using h1 h2 C8_throttle_retry[of 2 "scripted [throttled, throttled, Resolved 200]" start
        "[formatContactForHubSpot row_ann]" 200]
    by (simp add: start_def numeral_2_eq_2 throttled_def scripted_def)
qed

text \<open>The same remote seen from \<open>sync\<close>: the run returns its count, not an error.\<close>

lemma sync_throttled_scenario:
  "sync (table_findAll [row_ann]) (scripted [throttled, throttled, Resolved 200]) 3 =
     Some (Inr 1,
       \<lparr>calls = 3,
        trace = [FindAll (page_opts 3 5000 0 0), FindAll (page_opts 3 5000 0 5000),
                 Post (upsert_inputs [formatContactForHubSpot row_ann]) throttled, Wait 1000,
                 Post (upsert_inputs [formatContactForHubSpot row_ann]) throttled, Wait 1000,
                 Post (upsert_inputs [formatContactForHubSpot row_ann]) (Resolved 200)]\<rparr>)"
  by (simp add: sync_def sync_loop_unfold page_opts_def table_findAll_def send_remaining_def
      sendBatchToHubSpot.simps scripted_def throttled_def start_def Let_def fetched_def)

text \<open>
  C9. A call answered with status 401 is not retried: the send throws the
  authentication error after that single call. In a run of \<open>sync\<close> that returns, nothing
  follows an unauthorized call, neither a further call nor a further page fetch, and
  the run's result is the authentication error. And the run does return, with these
  properties, whenever the remote does not throttle a call for ever.
\<close>

theorem C9_unauthorized_aborts:
  "(remote (calls w0) (upsert_inputs b) = unauthorized \<longrightarrow>
      sendBatchToHubSpot remote b w0 =
        Some (Inl auth_error,
              w0\<lparr>calls := calls w0 + 1,
                 trace := trace w0 @ [Post (upsert_inputs b) unauthorized]\<rparr>)) \<and>
   (sync findAll remote cap = Some (res, w) \<longrightarrow>
      trace w = before @ Post inputs unauthorized # after \<longrightarrow>
      after = [] \<and> res = Inl auth_error) \<and>
   ((\<forall>n inputs. \<exists>k. remote (n + k) inputs \<noteq> throttled) \<longrightarrow>
      (\<exists>res w. sync findAll remote cap = Some (res, w) \<and>
         (\<forall>before inputs after. trace w = before @ Post inputs unauthorized # after \<longrightarrow>
            after = [] \<and> res = Inl auth_error)))"
proof (intro conjI)
  show "remote (calls w0) (upsert_inputs b) = unauthorized \<longrightarrow>
      sendBatchToHubSpot remote b w0 =
        Some (Inl auth_error,
              w0\<lparr>calls := calls w0 + 1,
                 trace := trace w0 @ [Post (upsert_inputs b) unauthorized]\<rparr>)"
    using sendBatch_step_final[of remote w0 b unauthorized]
    by (simp add: unauthorized_def throttled_def outcome_def)
next
  have last: "\<And>res w before inputs after.
      sync findAll remote cap = Some (res, w) \<Longrightarrow>
      trace w = before @ Post inputs unauthorized # after \<Longrightarrow>
      after = [] \<and> res = Inl auth_error"
  proof -
    fix res w before inputs after
    assume run: "sync findAll remote cap = Some (res, w)"
      and tr: "trace w = before @ Post inputs unauthorized # after"
    from run have "sync_loop findAll remote cap 5000 100 0 [] 0 start = Some (res, w)"
      by (simp add: sync_def)
    from sync_loop_halts[OF this] have "halts_on_unauthorized res (trace w)"
      by (auto simp: start_def)
    from halts_unauthorized_last[OF this tr] show "after = [] \<and> res = Inl auth_error" .
  qed
  then show "sync findAll remote cap = Some (res, w) \<longrightarrow>
      trace w = before @ Post inputs unauthorized # after \<longrightarrow>
      after = [] \<and> res = Inl auth_error"
    by blast
  show "(\<forall>n inputs. \<exists>k. remote (n + k) inputs \<noteq> throttled) \<longrightarrow>
      (\<exists>res w. sync findAll remote cap = Some (res, w) \<and>
         (\<forall>before inputs after. trace w = before @ Post inputs unauthorized # after \<longrightarrow>
            after = [] \<and> res = Inl auth_error))"
  proof
    assume "\<forall>n inputs. \<exists>k. remote (n + k) inputs \<noteq> throttled"
    from sync_returns[OF this, of findAll cap] obtain res w where
      "sync findAll remote cap = Some (res, w)" by blast
    with last show "\<exists>res w. sync findAll remote cap = Some (res, w) \<and>
         (\<forall>before inputs after. trace w = before @ Post inputs unauthorized # after \<longrightarrow>
            after = [] \<and> res = Inl auth_error)"
      by blast
  qed
qed

text \<open>
  A table of 150 rows, cap 150, and a remote that rejects the first call as
  unauthorized: \<open>sync\<close> makes that one call of 100 entries and ends with the
  authentication error; the 50 rows that remain are never sent. And a table of one
  row, where the rejected call is the flush of the remaining records after the source
  is exhausted: the run ends with the authentication error there too.
\<close>

theorem C9_witness:
  "scripted [unauthorized] (calls start)
     (upsert_inputs (map formatContactForHubSpot (take 100 (map numbered [0..<150]))))
     = unauthorized \<and>
   sendBatchToHubSpot (scripted [unauthorized])
       (map formatContactForHubSpot (take 100 (map numbered [0..<150]))) start =
     Some (Inl auth_error,
       \<lparr>calls = 1,
        trace = [Post (upsert_inputs
                   (map formatContactForHubSpot (take 100 (map numbered [0..<150]))))
                   unauthorized]\<rparr>) \<and>
   sync (table_findAll (map numbered [0..<150])) (scripted [unauthorized]) 150 =
     Some (Inl auth_error,
       \<lparr>calls = 1,
        trace = [FindAll (page_opts 150 5000 0 0)] @
                Post (upsert_inputs
                   (map formatContactForHubSpot (take 100 (map numbered [0..<150]))))
                   unauthorized # []\<rparr>) \<and>
   sync (table_findAll [row_ann]) (scripted [unauthorized]) 3 =
     Some (Inl auth_error,
       \<lparr>calls = 1,
        trace = [FindAll (page_opts 3 5000 0 0), FindAll (page_opts 3 5000 0 5000),
                 Post (upsert_inputs [formatContactForHubSpot row_ann]) unauthorized]\<rparr>)"
proof -
  let ?tbl = "map numbered [0..<150]"
  let ?b = "map formatContactForHubSpot (take 100 ?tbl)"
  let ?w = "\<lparr>calls = 1,
        trace = [FindAll (page_opts 150 5000 0 0)] @ Post (upsert_inputs ?b) unauthorized # []\<rparr>"
  have h: "scripted [unauthorized] (calls start) (upsert_inputs ?b) = unauthorized"
    by (simp add: scripted_def start_def)
  have fair: "\<forall>n inputs. \<exists>k. scripted [unauthorized] (n + k) inputs \<noteq> throttled"
    by (auto simp: scripted_def throttled_def unauthorized_def)
  have run: "sync (table_findAll ?tbl) (scripted [unauthorized]) 150 = Some (Inl auth_error, ?w)"
    by (rule sync_first_call_unauthorized) (simp_all add: scripted_def)
  have tr: "trace ?w =
      [FindAll (page_opts 150 5000 0 0)] @ Post (upsert_inputs ?b) unauthorized # []"
    by simp
  from C9_unauthorized_aborts[of "scripted [unauthorized]" start ?b
      "table_findAll ?tbl" 150 "Inl auth_error" ?w "[FindAll (page_opts 150 5000 0 0)]"
      "upsert_inputs ?b" "[]"] h fair run tr
  have full: "sendBatchToHubSpot (scripted [unauthorized]) ?b start =
      Some (Inl auth_error, \<lparr>calls = 1, trace = [Post (upsert_inputs ?b) unauthorized]\<rparr>)"
    by (simp add: start_def)
  have flush: "sync (table_findAll [row_ann]) (scripted [unauthorized]) 3 =
     Some (Inl auth_error,
       \<lparr>calls = 1,
        trace = [FindAll (page_opts 3 5000 0 0), FindAll (page_opts 3 5000 0 5000),
                 Post (upsert_inputs [formatContactForHubSpot row_ann]) unauthorized]\<rparr>)"
    by (simp add: sync_def sync_loop_unfold page_opts_def table_findAll_def send_remaining_def
        sendBatchToHubSpot.simps scripted_def unauthorized_def auth_error_def start_def
        Let_def fetched_def)
  from h full run flush show ?thesis by simp
qed

section \<open>Egress: the claim about page fetches\<close>

text \<open>
  C3, as stated, fails on the code. The fetch names no order, so what order the rows of
  a page come in is left to the store (the migration gives table \<open>BabyNames\<close> secondary
  indexes on \<open>name\<close> and on \<open>name, sex\<close>, and a query without \<open>ORDER BY\<close> may be served
  through any of them). A store that serves its table with two rows out of id order,
  and that returns ascending ids when asked to, returns the one page of a run with cap
  100 in the table's sequence: not in ascending ids.
\<close>

theorem C3_counterexample:
  "sync (table_findAll swapped_table) always_ok 100 =
     Some (Inr 100,
       \<lparr>calls = 1,
        trace = [FindAll (page_opts 100 5000 0 0),
                 Post (upsert_inputs (map formatContactForHubSpot (take 100 swapped_table)))
                   (Resolved 200)]\<rparr>) \<and>
   order (page_opts 100 5000 0 0) = None \<and>
   pages_read swapped_table always_ok 100 = [swapped_table] \<and>
   \<not> sorted (map row_id swapped_table) \<and>
   sorted (map row_id
     (table_findAll swapped_table ((page_opts 100 5000 0 0)\<lparr>order := Some IdAscending\<rparr>)))"
proof -
  have len: "100 \<le> length swapped_table" by (simp add: swapped_table_def)
  have pages: "pages_read swapped_table always_ok 100 = [swapped_table]"
    by (simp add: pages_read_def sync_cap_100 swapped_table_def table_findAll_def
        page_opts_def)
  have unsorted: "\<not> sorted (map row_id swapped_table)"
    by (simp add: swapped_table_def numbered_def)
  have asked: "sorted (map row_id
     (table_findAll swapped_table ((page_opts 100 5000 0 0)\<lparr>order := Some IdAscending\<rparr>)))"
    by (rule table_findAll_ordered) simp
  from sync_cap_100[OF len] pages unsorted asked show ?thesis
    by (simp add: page_opts_def)
qed

text \<open>
  C3, amended. In a run that returns, every page fetch names no order, happens while
  fewer records than the cap have been delivered and asks for
  \<open>min 5000 (cap - delivered)\<close> rows, where \<open>delivered\<close> is the number of records
  delivered before it; fetch number \<open>i\<close> (from 0) starts at offset \<open>5000 * i\<close>. Read from a
  table, fetch \<open>i\<close> is the slice of that many rows of the table's own sequence from
  position \<open>5000 * i\<close> on, so a page fetched with limit 5000 ends where the next one
  starts. The pages one after the other form a subsequence of the table's sequence: no
  row is read twice and the table's order is kept, so the rows come in ascending ids
  whenever the table holds them so.
\<close>

theorem C3_pages:
  assumes "sync (table_findAll tbl) remote cap = Some (res, w)"
    and "fs = fetches (trace w)"
  shows "(\<forall>pre opts post. trace w = pre @ FindAll opts # post \<longrightarrow>
            delivered_total pre < cap \<and>
            limit opts = min 5000 (cap - delivered_total pre)) \<and>
         (\<forall>i<length fs.
            offset (fs ! i) = 5000 * i \<and> 0 < limit (fs ! i) \<and> limit (fs ! i) \<le> 5000 \<and>
            order (fs ! i) = None \<and>
            table_findAll tbl (fs ! i) = take (limit (fs ! i)) (drop (5000 * i) tbl)) \<and>
         subseq (concat (map (table_findAll tbl) fs)) tbl \<and>
         (sorted (map row_id tbl) \<longrightarrow>
            sorted (map row_id (concat (map (table_findAll tbl) fs))))"
proof -
  from assms(1)
  have run: "sync_loop (table_findAll tbl) remote cap 5000 100 0 [] 0 start = Some (res, w)"
    by (simp add: sync_def)
  from sync_loop_fetch_limits[OF run] have fl: "fetch_limits cap 5000 0 (trace w)"
    by (auto simp: start_def)
  have limits: "\<forall>pre opts post. trace w = pre @ FindAll opts # post \<longrightarrow>
            delivered_total pre < cap \<and>
            limit opts = min 5000 (cap - delivered_total pre)"
  proof (intro allI impI)
    fix pre opts post assume "trace w = pre @ FindAll opts # post"
    with fl have "fetch_limits cap 5000 0 (pre @ FindAll opts # post)" by simp
    from fetch_limits_at[OF this]
    show "delivered_total pre < cap \<and> limit opts = min 5000 (cap - delivered_total pre)"
      by simp
  qed
  from sync_loop_fetches[OF run] assms(2) have p: "paged cap 5000 0 fs"
    by (auto simp: start_def)
  have pages: "\<forall>i<length fs.
            offset (fs ! i) = 5000 * i \<and> 0 < limit (fs ! i) \<and> limit (fs ! i) \<le> 5000 \<and>
            order (fs ! i) = None \<and>
            table_findAll tbl (fs ! i) = take (limit (fs ! i)) (drop (5000 * i) tbl)"
  proof (intro allI impI)
    fix i assume "i < length fs"
    from paged_nth[OF p this]
    have n: "offset (fs ! i) = 5000 * i" "0 < limit (fs ! i)" "limit (fs ! i) \<le> 5000"
      "order (fs ! i) = None" by simp_all
    from table_findAll_unordered[OF n(4), of tbl] n
    show "offset (fs ! i) = 5000 * i \<and> 0 < limit (fs ! i) \<and> limit (fs ! i) \<le> 5000 \<and>
            order (fs ! i) = None \<and>
            table_findAll tbl (fs ! i) = take (limit (fs ! i)) (drop (5000 * i) tbl)"
      by simp
  qed
  from paged_subseq[OF p, of tbl]
  have s: "subseq (concat (map (table_findAll tbl) fs)) tbl" by simp
  from subseq_map[OF s, of row_id] subseq_sorted
  have "sorted (map row_id tbl) \<longrightarrow>
          sorted (map row_id (concat (map (table_findAll tbl) fs)))"
    by blast
  with limits pages s show ?thesis by blast
qed

text \<open>Cap 200 over a table of 100 rows in id order: the first fetch asks for 200 rows
  and gets 100, which are delivered in one call; the second asks for the 100 that the
  cap still allows, at offset 5000, and gets none.\<close>

theorem C3_witness:
  "sync (table_findAll (map numbered [0..<100])) always_ok 200 =
     Some (Inr 100,
       \<lparr>calls = 1,
        trace = [FindAll (page_opts 200 5000 0 0),
                 Post (upsert_inputs (map formatContactForHubSpot (map numbered [0..<100])))
                   (Resolved 200)] @
                FindAll (page_opts 200 5000 100 5000) # []\<rparr>) \<and>
   delivered_total
     [FindAll (page_opts 200 5000 0 0),
      Post (upsert_inputs (map formatContactForHubSpot (map numbered [0..<100])))
        (Resolved 200)] = 100 \<and>
   limit (page_opts 200 5000 100 5000) = min 5000 (200 - 100) \<and>
   offset (page_opts 200 5000 0 0) = 5000 * 0 \<and>
   offset (page_opts 200 5000 100 5000) = 5000 * 1 \<and>
   table_findAll (map numbered [0..<100]) (page_opts 200 5000 0 0) = map numbered [0..<100] \<and>
   table_findAll (map numbered [0..<100]) (page_opts 200 5000 100 5000) = [] \<and>
   sorted (map row_id (map numbered [0..<100])) \<and>
   sorted (map row_id (concat (map (table_findAll (map numbered [0..<100]))
                    [page_opts 200 5000 0 0, page_opts 200 5000 100 5000])))"
proof -
  let ?tbl = "map numbered [0..<100]"
  let ?pre = "[FindAll (page_opts 200 5000 0 0),
               Post (upsert_inputs (map formatContactForHubSpot ?tbl)) (Resolved 200)]"
  let ?w = "\<lparr>calls = 1, trace = ?pre @ FindAll (page_opts 200 5000 100 5000) # []\<rparr>"
  have run: "sync (table_findAll ?tbl) always_ok 200 = Some (Inr 100, ?w)"
    using sync_short_table[of ?tbl] by simp
  have fs: "[page_opts 200 5000 0 0, page_opts 200 5000 100 5000] = fetches (trace ?w)"
    by simp
  have d: "delivered_total ?pre = 100" by simp
  have ids: "map row_id ?tbl = [0..<100]"
    by (simp add: numbered_def comp_def)
  have srt: "sorted (map row_id ?tbl)" unfolding ids by simp
  have tr: "trace ?w = ?pre @ FindAll (page_opts 200 5000 100 5000) # []" by simp
  note pages = C3_pages[OF run fs]
  from pages have "limit (page_opts 200 5000 100 5000) = min 5000 (200 - delivered_total ?pre)"
    using tr by blast
  moreover from pages srt
  have "sorted (map row_id (concat (map (table_findAll ?tbl)
                    [page_opts 200 5000 0 0, page_opts 200 5000 100 5000])))"
    by blast
  ultimately show ?thesis
    using run d srt by (simp add: page_opts_def table_findAll_def)
qed

section \<open>Egress: the upsert key\<close>

lemma upsert_key_eq:
  "upsert_key b = replace_ws (toLowerCase (name b)) @ ''.'' @ toLowerCase (sex_text (sex b))
                    @ ''@babynamesdemo.com''"
  by (simp add: upsert_key_def upsert_inputs_def formatContactForHubSpot_def Let_def)

lemma sex_suffix_inj:
  "(toLowerCase (sex_text s) = toLowerCase (sex_text s')) = (s = s')"
  by (cases s; cases s') (simp_all add: toLowerCase_def toLowerCase_char_def char_of_def)

lemma length_sex [simp]: "length (toLowerCase (sex_text s)) = 1"
  by (cases s) (simp_all add: toLowerCase_def)

text \<open>
  C6, as stated, fails on the code: the key lower-cases the name and turns white space
  into dots, so records that differ only in letter case, or in a space against a dot,
  share a key.
\<close>

theorem C6_counterexample:
  "name row_ann \<noteq> name row_ann_lower \<and> upsert_key row_ann = upsert_key row_ann_lower \<and>
   name row_mary_ann \<noteq> name row_mary_dot_ann \<and>
   upsert_key row_mary_ann = upsert_key row_mary_dot_ann"
  by code_simp

text \<open>
  C6, amended. The key is a function of the name and the sex alone, and two records
  have the same key exactly when they have the same sex and their names agree after
  lower-casing and replacing every run of white space by a dot.
\<close>

theorem C6_key_injective_up_to_case:
  "(upsert_key a = upsert_key b) =
     (replace_ws (toLowerCase (name a)) = replace_ws (toLowerCase (name b)) \<and> sex a = sex b)"
proof -
  let ?sa = "''.'' @ toLowerCase (sex_text (sex a)) @ ''@babynamesdemo.com''"
  let ?sb = "''.'' @ toLowerCase (sex_text (sex b)) @ ''@babynamesdemo.com''"
  have "length ?sa = length ?sb" by simp
  then have "(replace_ws (toLowerCase (name a)) @ ?sa = replace_ws (toLowerCase (name b)) @ ?sb) =
        (replace_ws (toLowerCase (name a)) = replace_ws (toLowerCase (name b)) \<and> ?sa = ?sb)"
    by (simp add: append_eq_append_conv)
  also have "(?sa = ?sb) = (sex a = sex b)"
    using sex_suffix_inj[of "sex a" "sex b"] by simp
  finally show ?thesis by (simp add: upsert_key_eq)
qed

theorem C6_witness:
  "upsert_key row_ann = ''ann.f@babynamesdemo.com'' \<and>
   upsert_key row_ann_male = ''ann.m@babynamesdemo.com'' \<and>
   upsert_key row_ann \<noteq> upsert_key row_ann_male"
proof -
  have a: "upsert_key row_ann = ''ann.f@babynamesdemo.com''" by code_simp
  have b: "upsert_key row_ann_male = ''ann.m@babynamesdemo.com''" by code_simp
  have "sex row_ann \<noteq> sex row_ann_male" by (simp add: row_ann_def row_ann_male_def)
  with C6_key_injective_up_to_case[of row_ann row_ann_male] a b show ?thesis by simp
qed

section \<open>Egress: the delivery cap\<close>

lemma first_page_cap_150:
  assumes "150 \<le> length tbl"
  shows "for_records always_ok 150 100 (take 150 tbl) 0 [] w =
           Some (Inr (100, map formatContactForHubSpot (take 50 (drop 100 tbl))),
                 w\<lparr>calls := calls w + 1,
                   trace := trace w @
                     [Post (upsert_inputs (map formatContactForHubSpot (take 100 tbl)))
                        (Resolved 200)]\<rparr>)"
proof -
  let ?w2 = "w\<lparr>calls := calls w + 1,
                   trace := trace w @
                     [Post (upsert_inputs (map formatContactForHubSpot (take 100 tbl)))
                        (Resolved 200)]\<rparr>"
  have split: "take 150 tbl = take 100 tbl @ take 50 (drop 100 tbl)"
    using take_add[of 100 50 tbl] by simp
  have a: "for_records always_ok 150 100 (take 100 tbl) 0 [] w = Some (Inr (0 + 100, []), ?w2)"
    using assms by (intro for_records_send) (auto simp: sendBatch_always_ok)
  have b: "for_records always_ok 150 100 (take 50 (drop 100 tbl)) 100 [] ?w2 =
             Some (Inr (100, [] @ map formatContactForHubSpot (take 50 (drop 100 tbl))), ?w2)"
    using assms by (intro for_records_fill) auto
  show ?thesis
    unfolding split for_records_append using a b by simp
qed

lemma sync_cap_150_small_store:
  assumes "150 \<le> length tbl" and "length tbl \<le> 5000"
  shows "sync (table_findAll tbl) always_ok 150 =
           Some (Inr 150,
             \<lparr>calls = 2,
              trace = [FindAll (page_opts 150 5000 0 0),
                       Post (upsert_inputs (map formatContactForHubSpot (take 100 tbl)))
                         (Resolved 200),
                       FindAll (page_opts 150 5000 100 5000),
                       Post (upsert_inputs (map formatContactForHubSpot
                               (take 50 (drop 100 tbl)))) (Resolved 200)]\<rparr>)"
proof -
  have p1: "table_findAll tbl (page_opts 150 5000 0 0) = take 150 tbl"
    by (simp add: table_findAll_def page_opts_def)
  have ne: "take 150 tbl \<noteq> []" using assms(1) by auto
  have p2: "table_findAll tbl (page_opts 150 5000 100 5000) = []"
    using assms(2) by (simp add: table_findAll_def page_opts_def)
  have cb: "0 < length (map formatContactForHubSpot (take 50 (drop 100 tbl)))"
    using assms(1) by simp
  have len: "length (take 50 (drop 100 tbl)) = 50" using assms(1) by simp
  show ?thesis
    using assms unfolding sync_def
    apply (subst sync_loop_unfold)
    apply (simp add: p1 ne first_page_cap_150[OF assms(1)])
    apply (subst sync_loop_unfold)
    apply (simp add: p2 send_remaining_def cb sendBatch_always_ok len start_def fetched_def)
    apply auto
    done
qed

lemma sync_cap_150_large_store:
  assumes "5050 \<le> length tbl"
  shows "sync (table_findAll tbl) always_ok 150 =
           Some (Inr 200,
             \<lparr>calls = 2,
              trace = [FindAll (page_opts 150 5000 0 0),
                       Post (upsert_inputs (map formatContactForHubSpot (take 100 tbl)))
                         (Resolved 200),
                       FindAll (page_opts 150 5000 100 5000),
                       Post (upsert_inputs
                               (map formatContactForHubSpot (take 50 (drop 100 tbl)) @
                                map formatContactForHubSpot (take 50 (drop 5000 tbl))))
                         (Resolved 200)]\<rparr>)"
proof -
  have l150: "150 \<le> length tbl" using assms by simp
  have p1: "table_findAll tbl (page_opts 150 5000 0 0) = take 150 tbl"
    by (simp add: table_findAll_def page_opts_def)
  have ne: "take 150 tbl \<noteq> []" using assms by auto
  have p2: "table_findAll tbl (page_opts 150 5000 100 5000) = take 50 (drop 5000 tbl)"
    by (simp add: table_findAll_def page_opts_def)
  have ne2: "take 50 (drop 5000 tbl) \<noteq> []" using assms by auto
  have second: "\<And>w. for_records always_ok 150 100 (take 50 (drop 5000 tbl)) 100
                   (map formatContactForHubSpot (take 50 (drop 100 tbl))) w =
          Some (Inr (100 + 100, []),
                w\<lparr>calls := calls w + 1,
                  trace := trace w @
                    [Post (upsert_inputs
                             (map formatContactForHubSpot (take 50 (drop 100 tbl)) @
                              map formatContactForHubSpot (take 50 (drop 5000 tbl))))
                       (Resolved 200)]\<rparr>)"
    using assms ne2 by (intro for_records_send) (auto simp: sendBatch_always_ok)
  show ?thesis
    using assms unfolding sync_def
    apply (subst sync_loop_unfold)
    apply (simp add: p1 ne first_page_cap_150[OF l150])
    apply (subst sync_loop_unfold)
    apply (simp add: p2 ne2 second send_remaining_def start_def fetched_def)
    apply auto
    done
qed

lemma call_sizes_cap_150_small_store:
  assumes "150 \<le> length tbl" and "length tbl \<le> 5000"
  shows "call_sizes (sync (table_findAll tbl) always_ok 150) = Some (Inr 150, [100, 50])"
  using assms by (simp add: call_sizes_def sync_cap_150_small_store)

lemma call_sizes_cap_150_large_store:
  assumes "5050 \<le> length tbl"
  shows "call_sizes (sync (table_findAll tbl) always_ok 150) = Some (Inr 200, [100, 100])"
  using assms by (simp add: call_sizes_def sync_cap_150_large_store)

subsection \<open>Runs that exceed the cap\<close>

text \<open>
  C1. The loop compares the cap with \<open>totalSynced\<close>, which counts the records already
  sent and not the ones waiting in \<open>currentBatch\<close>. With cap 1 and a table of 5001 rows
  the first page leaves one record waiting, the second page (offset 5000) adds another,
  and the flush after the empty third page sends both: 2 records for a cap of 1.
\<close>

theorem C1_cap_exceeded:
  "call_sizes (sync (table_findAll (map numbered [0..<5001])) always_ok 1) = Some (Inr 2, [2])"
  by (simp add: call_sizes_def sync_def sync_loop_unfold page_opts_def table_findAll_def
      send_remaining_def sendBatchToHubSpot.simps always_ok_def start_def Let_def fetched_def
      take_map drop_map)

text \<open>
  C2. With cap 150 the run over a table of 150 to 5000 rows makes the two calls of 100
  and 50 entries (\<open>call_sizes_cap_150_small_store\<close>). Over a table of 5050 rows the 50
  records left waiting after the first page are joined by the 50 rows of the second
  page (offset 5000, limit 50): the run makes two calls of 100 entries and returns 200.
\<close>

theorem C2_large_store:
  "call_sizes (sync (table_findAll (map numbered [0..<5050])) always_ok 150) =
     Some (Inr 200, [100, 100])"
  by (simp add: call_sizes_cap_150_large_store)

end
